theory Spec2Isabelle
  imports Main "HOL-Library.Char_ord" "HOL-Library.List_Lexorder" "HOL-Library.Product_Lexorder"
begin

section \<open>The harvester of update\_goldsky.py\<close>

text \<open>
  The module pages through the orderFilledEvents of a remote GraphQL service and appends
  them to goldsky/orderFilled.csv. Two functions carry the logic: \<open>get_latest_cursor\<close>
  reads the resume point back from the file, and \<open>scrape\<close> runs the paging loop.

  Everything outside the module is made explicit. The answer of the remote service to a
  query is an input of the loop body (\<open>response\<close>); the file is a value that the
  functions take and return (\<open>csv_file\<close>); an exception is a branch. How the service
  writes a timestamp in its JSON answer is outside the module: the column timestamp is
  taken to hold integers, as the data model of the spec has it, so \<open>sort_values\<close> compares
  timestamps as integers. Ids are strings, compared by code point as Python compares
  \<open>str\<close>.
\<close>

subsection \<open>Events and the columns that are saved\<close>

text \<open>
  One element of \<open>res['orderFilledEvents']\<close>, with the eleven fields the query asks for.
  The field \<open>id\<close> of the source is \<open>id_field\<close> here.
\<close>

record event =
  fee :: string
  id_field :: string
  maker :: string
  makerAmountFilled :: string
  makerAssetId :: string
  orderHash :: string
  taker :: string
  takerAmountFilled :: string
  takerAssetId :: string
  timestamp :: int
  transactionHash :: string

text \<open>Python's \<open>str\<close> of an integer: decimal digits, a minus sign when negative.\<close>

definition digit_char :: "nat \<Rightarrow> char" where
  "digit_char d = char_of (48 + d)"

fun str_nat :: "nat \<Rightarrow> string" where
  "str_nat n = (if n < 10 then [digit_char n] else str_nat (n div 10) @ [digit_char (n mod 10)])"

declare str_nat.simps [simp del]

definition str_int :: "int \<Rightarrow> string" where
  "str_int i = (if i < 0 then CHR ''-'' # str_nat (nat (- i)) else str_nat (nat i))"

text \<open>\<open>','.join\<close>.\<close>

fun join_comma :: "string list \<Rightarrow> string" where
  "join_comma [] = []"
| "join_comma [x] = x"
| "join_comma (x # y # ys) = x @ CHR '','' # join_comma (y # ys)"

text \<open>
  \<open>COLUMNS_TO_SAVE\<close> and the line \<open>to_csv\<close> writes for one row of \<open>df[COLUMNS_TO_SAVE]\<close>:
  the eight saved fields in that order. The id is not among them. The fields are
  written as they are (no field is taken to need CSV quoting).
\<close>

definition COLUMNS_TO_SAVE :: "string list" where
  "COLUMNS_TO_SAVE = [''timestamp'', ''maker'', ''makerAssetId'', ''makerAmountFilled'',
     ''taker'', ''takerAssetId'', ''takerAmountFilled'', ''transactionHash'']"

definition csv_row :: "event \<Rightarrow> string" where
  "csv_row e = join_comma [str_int (timestamp e), maker e, makerAssetId e, makerAmountFilled e,
     taker e, takerAssetId e, takerAmountFilled e, transactionHash e]"

subsection \<open>The file goldsky/orderFilled.csv\<close>

text \<open>
  The file is absent, or present with its lines (without the line terminators). The flag
  of a present file says whether it can be read: \<open>tail\<close>, \<open>head\<close> and \<open>read_csv\<close>
  fail on a file that cannot.
\<close>

datatype csv_file = Absent | Present bool "string list"

text \<open>
  Lines 183-186: \<open>to_csv\<close> appends the rows without a header when the file exists, and
  creates it with the header line otherwise.
\<close>

fun to_csv :: "event list \<Rightarrow> csv_file \<Rightarrow> csv_file" where
  "to_csv df (Present r ls) = Present r (ls @ map csv_row df)"
| "to_csv df Absent = Present True (join_comma COLUMNS_TO_SAVE # map csv_row df)"

subsection \<open>The cursor and one iteration of the loop\<close>

text \<open>
  The local variables of \<open>scrape\<close>. \<open>slept\<close> is the number of seconds spent in
  \<open>time.sleep\<close>.
\<close>

record cursor =
  last_timestamp :: int
  last_id :: "string option"
  sticky_timestamp :: "int option"
  count :: nat
  total_records :: nat
  slept :: nat

text \<open>
  The \<open>where\<close> clause of the query (lines 87-92), by its two shapes. Python formats
  \<open>None\<close> as the text None.
\<close>

datatype where_clause = Timestamp_gt int | Timestamp_id_gt int string

definition format_id :: "string option \<Rightarrow> string" where
  "format_id i = (case i of None \<Rightarrow> ''None'' | Some s \<Rightarrow> s)"

definition build_where_clause :: "cursor \<Rightarrow> where_clause" where
  "build_where_clause c =
     (case sticky_timestamp c of
        Some t \<Rightarrow> Timestamp_id_gt t (format_id (last_id c))
      | None \<Rightarrow> Timestamp_gt (last_timestamp c))"

text \<open>What \<open>client.execute\<close> does: it raises, or returns the list of events.\<close>

datatype response = Query_error | Events "event list"

text \<open>Line 138: \<open>sort_values(['timestamp', 'id'])\<close>.\<close>

definition sort_key_of :: "event \<Rightarrow> int \<times> string" where
  "sort_key_of e = (timestamp e, id_field e)"

definition sort_values :: "event list \<Rightarrow> event list" where
  "sort_values df = sort_key sort_key_of df"

text \<open>Line 177: \<open>drop_duplicates(subset=['id'])\<close> keeps the first row of every id.\<close>

fun drop_duplicates :: "event list \<Rightarrow> event list" where
  "drop_duplicates [] = []"
| "drop_duplicates (e # es) = e # filter (\<lambda>x. id_field x \<noteq> id_field e) (drop_duplicates es)"

text \<open>
  \<open>datetime.fromtimestamp(t, tz=timezone.utc)\<close> raises outside the years 1 to 9999 of
  \<open>datetime\<close>; \<open>fromtimestamp_ok\<close> says that it returns.
\<close>

definition fromtimestamp_ok :: "int \<Rightarrow> bool" where
  "fromtimestamp_ok t = (- 62135596800 \<le> t \<and> t \<le> 253402300799)"

text \<open>
  How an iteration ends: the loop goes round again (\<open>continue\<close>, or the end of the
  body), it is left (\<open>break\<close>), or an exception leaves the loop and \<open>scrape\<close>.
\<close>

datatype flow = Continue | Break | Raise

text \<open>Lines 147-171: the cursor after a batch that is not empty.\<close>

definition next_cursor :: "nat \<Rightarrow> event list \<Rightarrow> cursor \<Rightarrow> cursor" where
  "next_cursor at_once df c =
     (let batch_last_timestamp = timestamp (last df);
          batch_last_id = id_field (last df);
          batch_first_timestamp = timestamp (hd df)
      in if length df \<ge> at_once then
           (if batch_first_timestamp = batch_last_timestamp
            then c\<lparr>sticky_timestamp := Some batch_last_timestamp, last_id := Some batch_last_id\<rparr>
            else c\<lparr>sticky_timestamp := Some batch_last_timestamp, last_id := Some batch_last_id\<rparr>)
         else
           (case sticky_timestamp c of
              Some t \<Rightarrow> c\<lparr>last_timestamp := t, sticky_timestamp := None, last_id := None\<rparr>
            | None \<Rightarrow> c\<lparr>last_timestamp := batch_last_timestamp\<rparr>))"

text \<open>
  Lines 117-189: the body of \<open>while True\<close> from the answer of the query on. Line 144
  formats the last timestamp of the batch with \<open>datetime.fromtimestamp\<close> outside any
  \<open>try\<close>: when that raises, the exception leaves \<open>scrape\<close> before the cursor is
  updated and before anything is written. Writing the file is taken to succeed.
\<close>

definition loop_body :: "nat \<Rightarrow> response \<Rightarrow> cursor \<times> csv_file \<Rightarrow> flow \<times> cursor \<times> csv_file" where
  "loop_body at_once res s =
     (case s of (c, file) \<Rightarrow>
       (case res of
          Query_error \<Rightarrow> (Continue, c\<lparr>slept := slept c + 5\<rparr>, file)
        | Events evs \<Rightarrow>
            if evs = [] then
              (case sticky_timestamp c of
                 Some t \<Rightarrow>
                   (Continue, c\<lparr>last_timestamp := t, sticky_timestamp := None, last_id := None\<rparr>, file)
               | None \<Rightarrow> (Break, c, file))
            else
              (let df = sort_values evs;
                   batch_last_timestamp = timestamp (last df)
               in if \<not> fromtimestamp_ok batch_last_timestamp then (Raise, c, file)
                  else
                    (let c1 = next_cursor at_once df c;
                         c2 = c1\<lparr>count := count c1 + 1, total_records := total_records c1 + length df\<rparr>;
                         df' = drop_duplicates df;
                         file' = to_csv df' file
                     in (if length df' < at_once \<and> sticky_timestamp c2 = None then Break else Continue,
                         c2, file')))))"

subsection \<open>The loop\<close>

text \<open>
  \<open>while True\<close> (lines 85-189). \<open>execute k w n\<close> is what \<open>client.execute\<close> does at
  the \<open>k\<close>-th query of the run, for the \<open>where\<close> clause \<open>w\<close> and \<open>first: n\<close>.
  \<open>iterations\<close> runs at most \<open>fuel\<close> rounds: it answers \<open>Break\<close> with the state at
  the \<open>break\<close>, \<open>Raise\<close> with the state at the exception, or \<open>Continue\<close> with the
  state at the head of the next round. \<open>while_true\<close> is the loop: \<open>None\<close> when it has
  not been left within \<open>fuel\<close> rounds, \<open>Inr\<close> with the cursor and the file when it was
  left by \<open>break\<close>, \<open>Inl\<close> with the exception and the file when an exception left it.
\<close>

datatype error = ValueError

type_synonym remote = "nat \<Rightarrow> where_clause \<Rightarrow> nat \<Rightarrow> response"

fun iterations :: "remote \<Rightarrow> nat \<Rightarrow> nat \<Rightarrow> nat \<Rightarrow> cursor \<times> csv_file \<Rightarrow> flow \<times> cursor \<times> csv_file" where
  "iterations execute at_once 0 k s = (Continue, s)"
| "iterations execute at_once (Suc fuel) k s =
     (case loop_body at_once (execute k (build_where_clause (fst s)) at_once) s of
        (Break, s') \<Rightarrow> (Break, s')
      | (Raise, s') \<Rightarrow> (Raise, s')
      | (Continue, s') \<Rightarrow> iterations execute at_once fuel (Suc k) s')"

definition while_true ::
  "remote \<Rightarrow> nat \<Rightarrow> nat \<Rightarrow> cursor \<times> csv_file \<Rightarrow> (error \<times> csv_file + cursor \<times> csv_file) option" where
  "while_true execute at_once fuel s =
     (case iterations execute at_once fuel 0 s of
        (Break, s') \<Rightarrow> Some (Inr s')
      | (Raise, s') \<Rightarrow> Some (Inl (ValueError, snd s'))
      | (Continue, s') \<Rightarrow> None)"

subsection \<open>Reading the cursor back: get\_latest\_cursor\<close>

text \<open>\<open>str.strip\<close>, \<open>str.split(',')\<close> and \<open>list.index\<close>, on ASCII text.\<close>

definition is_space :: "char \<Rightarrow> bool" where
  "is_space c = (c \<in> {CHR 0x09, CHR 0x0A, CHR 0x0B, CHR 0x0C, CHR 0x0D,
     CHR 0x1C, CHR 0x1D, CHR 0x1E, CHR 0x1F, CHR 0x20})"

definition strip :: "string \<Rightarrow> string" where
  "strip s = rev (dropWhile is_space (rev (dropWhile is_space s)))"

fun split_comma :: "string \<Rightarrow> string list" where
  "split_comma [] = [[]]"
| "split_comma (c # cs) =
     (if c = CHR '','' then [] # split_comma cs
      else (case split_comma cs of [] \<Rightarrow> [[c]] | w # ws \<Rightarrow> (c # w) # ws))"

fun index :: "'a list \<Rightarrow> 'a \<Rightarrow> nat" where
  "index [] x = 0"
| "index (y # ys) x = (if y = x then 0 else Suc (index ys x))"

text \<open>
  Python's \<open>int\<close> of a string: blanks around it are dropped, then an optional sign and
  decimal digits, where single underscores may stand between digits. \<open>None\<close> is the
  ValueError. The blanks \<open>int\<close> drops on ASCII text are tab, line feed, vertical tab,
  form feed, carriage return and space; it refuses the separators 0x1C to 0x1F, which
  \<open>str.strip\<close> drops.
\<close>

definition is_int_blank :: "char \<Rightarrow> bool" where
  "is_int_blank c = (c \<in> {CHR 0x09, CHR 0x0A, CHR 0x0B, CHR 0x0C, CHR 0x0D, CHR 0x20})"

definition int_strip :: "string \<Rightarrow> string" where
  "int_strip s = rev (dropWhile is_int_blank (rev (dropWhile is_int_blank s)))"

definition is_digit :: "char \<Rightarrow> bool" where
  "is_digit c = (48 \<le> (of_char c :: nat) \<and> (of_char c :: nat) \<le> 57)"

definition digit_value :: "char \<Rightarrow> nat" where
  "digit_value c = of_char c - 48"

fun digits_value :: "nat \<Rightarrow> string \<Rightarrow> nat option" where
  "digits_value a [] = Some a"
| "digits_value a (c # cs) =
     (if is_digit c then digits_value (10 * a + digit_value c) cs
      else if c = CHR ''_'' \<and> (case cs of [] \<Rightarrow> False | d # ds \<Rightarrow> is_digit d) then digits_value a cs
      else None)"

definition py_nat :: "string \<Rightarrow> nat option" where
  "py_nat s = (case s of [] \<Rightarrow> None | c # cs \<Rightarrow> if is_digit c then digits_value 0 s else None)"

definition py_int :: "string \<Rightarrow> int option" where
  "py_int s =
     (case int_strip s of
        [] \<Rightarrow> None
      | c # cs \<Rightarrow>
          if c = CHR ''-'' then map_option (\<lambda>n. - int n) (py_nat cs)
          else if c = CHR ''+'' then map_option int (py_nat cs)
          else map_option int (py_nat (c # cs)))"

text \<open>
  How a \<open>try\<close> block ends: it returns a value, it raises, or it runs to its end.
\<close>

datatype attempt = Returned "int \<times> string option" | Raised | Fell_through

text \<open>
  Lines 30-47, the block that asks \<open>tail\<close> and \<open>head\<close>. Both commands fail (and
  \<open>check=True\<close> raises) on a file that is missing or cannot be read.
\<close>

definition tail_n1 :: "string list \<Rightarrow> string" where
  "tail_n1 ls = (if ls = [] then [] else last ls)"

definition head_n1 :: "string list \<Rightarrow> string" where
  "head_n1 ls = (case ls of [] \<Rightarrow> [] | l # rest \<Rightarrow> l)"

definition read_with_tail :: "csv_file \<Rightarrow> attempt" where
  "read_with_tail file =
     (case file of
        Absent \<Rightarrow> Raised
      | Present readable ls \<Rightarrow>
          if \<not> readable then Raised
          else
            (let last_line = strip (tail_n1 ls) in
             if last_line \<noteq> [] then
               (let headers = split_comma (strip (head_n1 ls)) in
                if ''timestamp'' \<in> set headers then
                  (let timestamp_index = index headers ''timestamp'';
                       values = split_comma last_line
                   in if length values > timestamp_index then
                        (case py_int (values ! timestamp_index) of
                           None \<Rightarrow> Raised
                         | Some l \<Rightarrow>
                             if fromtimestamp_ok l then Returned (l - 1, None) else Raised)
                      else Fell_through)
                else Fell_through)
             else Fell_through))"

text \<open>
  Lines 50-59, the fallback. pandas is a library outside the module, so its reading of
  the file is a parameter: \<open>pd ls\<close> is \<open>int(df.iloc[-1]['timestamp'])\<close> for the frame
  \<open>read_csv\<close> makes of the lines \<open>ls\<close>, and \<open>None\<close> when \<open>read_csv\<close> or the
  conversion raises, the frame has no row, or it has no column timestamp.
\<close>

type_synonym pandas = "string list \<Rightarrow> int option"

definition read_with_pandas :: "pandas \<Rightarrow> csv_file \<Rightarrow> attempt" where
  "read_with_pandas pd file =
     (case file of
        Absent \<Rightarrow> Raised
      | Present readable ls \<Rightarrow>
          if \<not> readable then Raised
          else
            (case pd ls of
               None \<Rightarrow> Fell_through
             | Some l \<Rightarrow>
                 if fromtimestamp_ok l then Returned (l - 1, None) else Raised))"

definition get_latest_cursor :: "pandas \<Rightarrow> csv_file \<Rightarrow> int \<times> string option" where
  "get_latest_cursor pd file =
     (if file = Absent then (0, None)
      else
        (case read_with_tail file of
           Returned r \<Rightarrow> r
         | Fell_through \<Rightarrow> (0, None)
         | Raised \<Rightarrow>
             (case read_with_pandas pd file of
                Returned r \<Rightarrow> r
              | Fell_through \<Rightarrow> (0, None)
              | Raised \<Rightarrow> (0, None))))"

subsection \<open>scrape\<close>

text \<open>Lines 71-77 and the loop.\<close>

definition start_cursor :: "int \<times> string option \<Rightarrow> cursor" where
  "start_cursor r =
     \<lparr>last_timestamp = fst r, last_id = snd r, sticky_timestamp = None,
      count = 0, total_records = 0, slept = 0\<rparr>"

definition scrape ::
  "pandas \<Rightarrow> remote \<Rightarrow> nat \<Rightarrow> nat \<Rightarrow> csv_file \<Rightarrow> (error \<times> csv_file + cursor \<times> csv_file) option" where
  "scrape pd execute at_once fuel file =
     while_true execute at_once fuel (start_cursor (get_latest_cursor pd file), file)"

subsection \<open>The remote service\<close>

text \<open>
  Modelled from the spec: the remote query interface, which is a service and no code of
  the repository. It holds a fixed list of events and answers a query with the events
  that match the \<open>where\<close> clause, in ascending order of timestamp and then id, cut to the
  first \<open>n\<close>.
\<close>

fun matches :: "where_clause \<Rightarrow> event \<Rightarrow> bool" where
  "matches (Timestamp_gt t) e = (timestamp e > t)"
| "matches (Timestamp_id_gt t i) e = (timestamp e = t \<and> id_field e > i)"

definition remote_query :: "event list \<Rightarrow> where_clause \<Rightarrow> nat \<Rightarrow> event list" where
  "remote_query source w n = take n (filter (matches w) (sort_key sort_key_of source))"

definition fixed_remote :: "event list \<Rightarrow> remote" where
  "fixed_remote source k w n = Events (remote_query source w n)"

subsection \<open>The shape of the cursor\<close>

text \<open>
  The cursor is a timestamp cursor, with no id, or a sticky cursor, with a timestamp and
  an id: \<open>last_id\<close> is set exactly when \<open>sticky_timestamp\<close> is.
\<close>

definition cursor_shape :: "cursor \<Rightarrow> bool" where
  "cursor_shape c = ((last_id c \<noteq> None) = (sticky_timestamp c \<noteq> None))"

subsection \<open>The record the cursor is read from\<close>

text \<open>
  In the spec's words, "the last persisted record's timestamp field": the field of the
  last line that stands under the column timestamp of the header line, read as an integer.
\<close>

definition timestamp_field :: "string list \<Rightarrow> int option" where
  "timestamp_field ls =
     (let header = split_comma (strip (head_n1 ls));
          fields = split_comma (strip (tail_n1 ls))
      in if ''timestamp'' \<in> set header \<and> index header ''timestamp'' < length fields
         then py_int (fields ! index header ''timestamp'')
         else None)"

subsection \<open>What a run has written\<close>

text \<open>
  A list of events in strictly ascending order of (timestamp, id).
\<close>

definition increasing :: "event list \<Rightarrow> bool" where
  "increasing es = sorted_wrt (\<lambda>a b. sort_key_of a < sort_key_of b) es"

text \<open>
  The events a cursor stands behind: with a timestamp cursor, those up to its timestamp;
  with a sticky cursor, those up to its timestamp and id in the order (timestamp, id).
  \<open>persisted c0 source c\<close> lists the events of \<open>source\<close> after the timestamp \<open>c0\<close> that
  the cursor \<open>c\<close> stands behind, in ascending order; \<open>written store es\<close> is the file
  \<open>store\<close> after the rows of \<open>es\<close> were appended to it. \<open>harvested\<close> says that the file
  of a run that started at timestamp \<open>c0\<close> with the file \<open>file0\<close> holds the rows of
  exactly these events after those of \<open>file0\<close>.
\<close>

definition covered :: "cursor \<Rightarrow> event \<Rightarrow> bool" where
  "covered c e =
     (case sticky_timestamp c of
        None \<Rightarrow> timestamp e \<le> last_timestamp c
      | Some t \<Rightarrow> sort_key_of e \<le> (t, format_id (last_id c)))"

definition persisted :: "int \<Rightarrow> event list \<Rightarrow> cursor \<Rightarrow> event list" where
  "persisted c0 source c =
     filter (\<lambda>e. c0 < timestamp e \<and> covered c e) (sort_key sort_key_of source)"

definition written :: "csv_file \<Rightarrow> event list \<Rightarrow> csv_file" where
  "written file es = (if es = [] then file else to_csv es file)"

definition harvested :: "csv_file \<Rightarrow> int \<Rightarrow> event list \<Rightarrow> cursor \<times> csv_file \<Rightarrow> bool" where
  "harvested file0 c0 source s =
     (snd s = written file0 (persisted c0 source (fst s))
      \<and> (case sticky_timestamp (fst s) of None \<Rightarrow> c0 \<le> last_timestamp (fst s) | Some t \<Rightarrow> c0 < t))"

text \<open>
  The events whose rows a run appends, in the order of the rows. The file does not keep
  the id of a row, so what is said below about the ids in the store is said about these
  events. \<open>appended res\<close> is the frame that lines 177-186 hand to \<open>to_csv\<close> for the
  answer \<open>res\<close> (nothing for a failed query, an empty answer or the exception of line
  144); \<open>harvest_log\<close> follows \<open>iterations\<close> and joins the frames of its rounds.
  \<open>behind c0 c es\<close> says that the events \<open>es\<close> are in ascending order of
  (timestamp, id), after the timestamp \<open>c0\<close>, and that the cursor \<open>c\<close> stands behind them.
\<close>

definition appended :: "response \<Rightarrow> event list" where
  "appended res =
     (case res of
        Query_error \<Rightarrow> []
      | Events evs \<Rightarrow>
          if evs = [] \<or> \<not> fromtimestamp_ok (timestamp (last (sort_values evs))) then []
          else drop_duplicates (sort_values evs))"

fun harvest_log :: "remote \<Rightarrow> nat \<Rightarrow> nat \<Rightarrow> nat \<Rightarrow> cursor \<times> csv_file \<Rightarrow> event list" where
  "harvest_log execute at_once 0 k s = []"
| "harvest_log execute at_once (Suc fuel) k s =
     (case loop_body at_once (execute k (build_where_clause (fst s)) at_once) s of
        (Continue, s') \<Rightarrow>
          appended (execute k (build_where_clause (fst s)) at_once)
            @ harvest_log execute at_once fuel (Suc k) s'
      | (Break, s') \<Rightarrow> appended (execute k (build_where_clause (fst s)) at_once)
      | (Raise, s') \<Rightarrow> appended (execute k (build_where_clause (fst s)) at_once))"

definition behind :: "int \<Rightarrow> cursor \<Rightarrow> event list \<Rightarrow> bool" where
  "behind c0 c es =
     (sorted (map sort_key_of es)
      \<and> (\<forall>e \<in> set es. covered c e \<and> c0 < timestamp e)
      \<and> (case sticky_timestamp c of None \<Rightarrow> c0 \<le> last_timestamp c | Some t \<Rightarrow> c0 < t))"


subsection \<open>Example data\<close>

text \<open>Events, cursors, batches and remote services for the concrete runs below.\<close>

definition example_event :: "int \<Rightarrow> string \<Rightarrow> event" where
  "example_event t i = \<lparr>fee = ''0'', id_field = i, maker = ''m'', makerAmountFilled = ''1'', makerAssetId = ''2'',
     orderHash = ''h'', taker = ''k'', takerAmountFilled = ''3'', takerAssetId = ''4'', timestamp = t,
     transactionHash = ''x'' @ i\<rparr>"

definition example_cursor :: "int \<Rightarrow> string option \<Rightarrow> int option \<Rightarrow> cursor" where
  "example_cursor t i s = \<lparr>last_timestamp = t, last_id = i, sticky_timestamp = s, count = 0, total_records = 0, slept = 0\<rparr>"

definition mixed_batch :: "event list" where
  "mixed_batch = [example_event 2 ''c'', example_event 1 ''a'']"

definition tied_batch :: "event list" where
  "tied_batch = [example_event 2 ''c'', example_event 2 ''b'']"

definition gap_source :: "event list" where
  "gap_source = [example_event 1 ''a'', example_event 2 ''b'', example_event 2 ''c'', example_event 3 ''d'']"

text \<open>A remote service whose first two queries fail, and one whose queries all fail.\<close>

definition flaky_remote :: remote where
  "flaky_remote k w n = (if k < 2 then Query_error else Events [])"

definition failing_remote :: remote where
  "failing_remote k w n = Query_error"

text \<open>
  A stand-in for pandas on a file whose first column holds integers: the integer in the
  first field of the last line, when there is a line after the header.
\<close>

definition pandas_int_column :: pandas where
  "pandas_int_column ls = (if length ls < 2 then None else py_int (hd (split_comma (last ls))))"

text \<open>
  A stand-in for pandas on a file where it reads the timestamp \<open>t\<close> from the last record,
  as it reads 12 from the field 12.0, which \<open>int\<close> refuses.
\<close>

definition pandas_reads :: "int \<Rightarrow> pandas" where
  "pandas_reads t ls = Some t"

text \<open>An event in the year 10000, one second after the last time \<open>datetime\<close> can hold.\<close>

definition far_future_event :: event where
  "far_future_event = example_event 253402300800 ''a''"


definition tie_source :: "event list" where
  "tie_source = [example_event 5 ''a'', example_event 5 ''b'']"

definition pair_source :: "event list" where
  "pair_source = [example_event 7 ''x'', example_event 8 ''y'']"

definition repeated_batch :: "event list" where
  "repeated_batch = [example_event 2 ''c'', example_event 1 ''a'', example_event 2 ''c'']"

section \<open>Properties\<close>

subsection \<open>One iteration\<close>

text \<open>
  C4. A query that succeeds with no result: in sticky mode the harvester goes back to
  normal mode, with the timestamp cursor at the sticky timestamp and the id cleared, and
  the loop goes on with the next query; in normal mode the loop is left, with the cursor
  and the file as they were.
\<close>

theorem zero_result_transitions:
  assumes "execute k (build_where_clause c) at_once = Events []"
  shows "(sticky_timestamp c = Some t \<longrightarrow>
            loop_body at_once (Events []) (c, file) =
              (Continue, c\<lparr>last_timestamp := t, sticky_timestamp := None, last_id := None\<rparr>, file)
          \<and> iterations execute at_once (Suc fuel) k (c, file) =
              iterations execute at_once fuel (Suc k)
                (c\<lparr>last_timestamp := t, sticky_timestamp := None, last_id := None\<rparr>, file)
          \<and> build_where_clause (c\<lparr>last_timestamp := t, sticky_timestamp := None, last_id := None\<rparr>) =
              Timestamp_gt t)
       \<and> (sticky_timestamp c = None \<longrightarrow>
            loop_body at_once (Events []) (c, file) = (Break, c, file)
          \<and> iterations execute at_once (Suc fuel) k (c, file) = (Break, c, file))"
proof -
  have body: "loop_body at_once (Events []) (c, file) =
      (case sticky_timestamp c of
         Some t \<Rightarrow> (Continue, c\<lparr>last_timestamp := t, sticky_timestamp := None, last_id := None\<rparr>, file)
       | None \<Rightarrow> (Break, c, file))"
    by (simp add: loop_body_def)
  have round: "iterations execute at_once (Suc fuel) k (c, file) =
      (case loop_body at_once (Events []) (c, file) of
         (Break, s') \<Rightarrow> (Break, s')
       | (Raise, s') \<Rightarrow> (Raise, s')
       | (Continue, s') \<Rightarrow> iterations execute at_once fuel (Suc k) s')"
    using assms by simp
  show ?thesis
    unfolding round body by (simp add: build_where_clause_def)
qed

theorem zero_result_transitions_witness:
  "loop_body 2 (Events []) (example_cursor 1 (Some ''b'') (Some 2), Absent) =
     (Continue, example_cursor 2 None None, Absent)
   \<and> iterations (fixed_remote []) 2 (Suc 0) 0 (example_cursor 1 (Some ''b'') (Some 2), Absent) =
     (Continue, example_cursor 2 None None, Absent)
   \<and> loop_body 2 (Events []) (example_cursor 2 None None, Absent) = (Break, example_cursor 2 None None, Absent)
   \<and> iterations (fixed_remote []) 2 (Suc 0) 0 (example_cursor 2 None None, Absent) =
     (Break, example_cursor 2 None None, Absent)"
  using zero_result_transitions [of "fixed_remote []" 0 "example_cursor 1 (Some ''b'') (Some 2)" 2 2 Absent 0]
    zero_result_transitions [of "fixed_remote []" 0 "example_cursor 2 None None" 2 2 Absent 0]
  by (simp add: example_cursor_def fixed_remote_def remote_query_def)

lemma sort_values_last_max:
  assumes "evs \<noteq> []" "e \<in> set evs"
  shows "sort_key_of e \<le> sort_key_of (last (sort_values evs))"
proof -
  let ?df = "sort_values evs"
  have s: "sorted (map sort_key_of ?df)" by (simp add: sort_values_def)
  have "length ?df = length evs" by (simp add: sort_values_def)
  then have ne: "?df \<noteq> []" using assms(1) by auto
  have "e \<in> set ?df" using assms(2) by (simp add: sort_values_def)
  then obtain i where i: "i < length ?df" "?df ! i = e" by (auto simp: in_set_conv_nth)
  have "map sort_key_of ?df ! i \<le> map sort_key_of ?df ! (length ?df - 1)"
    using s i(1) by (intro sorted_nth_mono) auto
  then show ?thesis using i ne by (simp add: last_conv_nth)
qed

text \<open>
  A batch of exactly \<open>at_once\<close> events whose last timestamp \<open>datetime\<close> can format:
  after sorting by (timestamp, id) the harvester is in sticky mode at the timestamp and
  the id of the last event of the batch, which is the greatest of the batch, and the loop
  goes on. Nothing is assumed about the first timestamp of the batch, so this holds
  whether it equals the last one or not.
\<close>

lemma full_batch_enters_sticky:
  assumes "evs \<noteq> []" and "length evs = at_once"
    and "fromtimestamp_ok (timestamp (last (sort_values evs)))"
  shows "fst (loop_body at_once (Events evs) (c, file)) = Continue
    \<and> sticky_timestamp (fst (snd (loop_body at_once (Events evs) (c, file)))) =
        Some (timestamp (last (sort_values evs)))
    \<and> last_id (fst (snd (loop_body at_once (Events evs) (c, file)))) =
        Some (id_field (last (sort_values evs)))
    \<and> build_where_clause (fst (snd (loop_body at_once (Events evs) (c, file)))) =
        Timestamp_id_gt (timestamp (last (sort_values evs))) (id_field (last (sort_values evs)))
    \<and> (\<forall>e \<in> set evs. sort_key_of e \<le> sort_key_of (last (sort_values evs)))"
proof -
  have len: "length (sort_values evs) = at_once" using assms(2) by (simp add: sort_values_def)
  show ?thesis
    using assms(1,3) len sort_values_last_max [OF assms(1)]
    by (simp add: loop_body_def next_cursor_def Let_def build_where_clause_def format_id_def)
qed

lemma full_batch_enters_sticky_examples:
  "mixed_batch \<noteq> [] \<and> length mixed_batch = 2
   \<and> fst (loop_body 2 (Events mixed_batch) (example_cursor 0 None None, Absent)) = Continue
   \<and> sticky_timestamp (fst (snd (loop_body 2 (Events mixed_batch) (example_cursor 0 None None, Absent)))) = Some 2
   \<and> last_id (fst (snd (loop_body 2 (Events mixed_batch) (example_cursor 0 None None, Absent)))) = Some ''c''
   \<and> tied_batch \<noteq> [] \<and> length tied_batch = 2
   \<and> fst (loop_body 2 (Events tied_batch) (example_cursor 0 (Some ''a'') (Some 2), Absent)) = Continue
   \<and> sticky_timestamp (fst (snd (loop_body 2 (Events tied_batch) (example_cursor 0 (Some ''a'') (Some 2), Absent)))) = Some 2
   \<and> last_id (fst (snd (loop_body 2 (Events tied_batch) (example_cursor 0 (Some ''a'') (Some 2), Absent)))) = Some ''c''"
proof -
  have m: "mixed_batch \<noteq> []" "length mixed_batch = 2" by (simp_all add: mixed_batch_def)
  have t: "tied_batch \<noteq> []" "length tied_batch = 2" by (simp_all add: tied_batch_def)
  have sm: "sort_values mixed_batch = [example_event 1 ''a'', example_event 2 ''c'']" by code_simp
  have st: "sort_values tied_batch = [example_event 2 ''b'', example_event 2 ''c'']" by code_simp
  have rm: "fromtimestamp_ok (timestamp (last (sort_values mixed_batch)))" by code_simp
  have rt: "fromtimestamp_ok (timestamp (last (sort_values tied_batch)))" by code_simp
  show ?thesis
    using m t full_batch_enters_sticky [OF m rm, of "example_cursor 0 None None" Absent]
      full_batch_enters_sticky [OF t rt, of "example_cursor 0 (Some ''a'') (Some 2)" Absent]
    unfolding sm st by (simp add: example_event_def)
qed

text \<open>
  C5. The claim says that every batch of exactly \<open>at_once\<close> results puts the harvester
  in sticky mode at the last timestamp and id of the batch. Line 144 formats that last
  timestamp with \<open>datetime.fromtimestamp\<close> before lines 147-159 and outside any \<open>try\<close>:
  for a batch whose last timestamp is in the year 10000 it raises, and \<open>scrape\<close> ends
  with the exception, the cursor not sticky and nothing written. Here the page size is 1
  and the batch is the one event (253402300800, a).
\<close>

theorem full_batch_far_future_raises:
  "length [far_future_event] = 1
   \<and> loop_body 1 (Events [far_future_event]) (example_cursor 0 None None, Absent) =
       (Raise, example_cursor 0 None None, Absent)
   \<and> scrape pandas_int_column (fixed_remote [far_future_event]) 1 3 Absent =
       Some (Inl (ValueError, Absent))"
  by code_simp

text \<open>
  C9. A query that fails: the loop sleeps five seconds and goes round again; the cursor
  (timestamp, id, sticky timestamp), the file and so the \<open>where\<close> clause of the next
  query are unchanged. Any number \<open>m\<close> of failures in a row is retried, and a remote
  service that always fails keeps the loop running for ever: no amount of fuel lets
  it return or end in an exception.
\<close>

theorem query_error_is_retried:
  "loop_body at_once Query_error (c, file) = (Continue, c\<lparr>slept := slept c + 5\<rparr>, file)
   \<and> build_where_clause (c\<lparr>slept := slept c + 5\<rparr>) = build_where_clause c
   \<and> ((\<forall>j < m. execute (k + j) (build_where_clause c) at_once = Query_error) \<longrightarrow>
        iterations execute at_once (m + fuel) k (c, file) =
          iterations execute at_once fuel (k + m) (c\<lparr>slept := slept c + 5 * m\<rparr>, file))
   \<and> ((\<forall>j. execute j (build_where_clause c) at_once = Query_error) \<longrightarrow>
        while_true execute at_once fuel (c, file) = None)"
proof -
  have body: "loop_body at_once Query_error (c, file) = (Continue, c\<lparr>slept := slept c + 5\<rparr>, file)" for c
    by (simp add: loop_body_def)
  have wc: "build_where_clause (c\<lparr>slept := n\<rparr>) = build_where_clause c" for c n
    by (simp add: build_where_clause_def split: option.split)
  have retry: "(\<forall>j < m. execute (k + j) (build_where_clause c) at_once = Query_error) \<Longrightarrow>
        iterations execute at_once (m + fuel) k (c, file) =
          iterations execute at_once fuel (k + m) (c\<lparr>slept := slept c + 5 * m\<rparr>, file)" for m k c fuel
  proof (induction m arbitrary: k c)
    case 0
    then show ?case by simp
  next
    case (Suc m)
    have first: "execute k (build_where_clause c) at_once = Query_error"
      using Suc.prems [rule_format, of 0] by simp
    have rest: "\<forall>j < m. execute (Suc k + j) (build_where_clause (c\<lparr>slept := slept c + 5\<rparr>)) at_once = Query_error"
      using Suc.prems by (auto simp: wc)
    show ?case
      using Suc.IH [OF rest] first by (simp add: body add.commute add.left_commute)
  qed
  have forever: "while_true execute at_once fuel (c, file) = None"
    if "\<forall>j. execute j (build_where_clause c) at_once = Query_error"
    using retry [of fuel 0 c 0] that by (simp add: while_true_def)
  show ?thesis using body wc retry forever by blast
qed

theorem query_error_is_retried_witness:
  "loop_body 2 Query_error (example_cursor 0 None None, Absent) =
     (Continue, example_cursor 0 None None\<lparr>slept := 5\<rparr>, Absent)
   \<and> iterations flaky_remote 2 3 0 (example_cursor 0 None None, Absent) =
     (Break, example_cursor 0 None None\<lparr>slept := 10\<rparr>, Absent)
   \<and> while_true failing_remote 2 7 (example_cursor 0 None None, Absent) = None"
proof -
  define c where "c = example_cursor 0 None None"
  have two: "\<forall>j < 2. flaky_remote (0 + j) (build_where_clause c) 2 = Query_error"
    by (simp add: flaky_remote_def)
  have all: "\<forall>j. failing_remote j (build_where_clause c) 2 = Query_error"
    by (simp add: failing_remote_def)
  have body: "loop_body 2 Query_error (c, Absent) = (Continue, c\<lparr>slept := slept c + 5\<rparr>, Absent)"
    using query_error_is_retried [of 2 c Absent 2 flaky_remote 0 1] by blast
  have retried: "iterations flaky_remote 2 (2 + 1) 0 (c, Absent) =
      iterations flaky_remote 2 1 (0 + 2) (c\<lparr>slept := slept c + 5 * 2\<rparr>, Absent)"
    using query_error_is_retried [of 2 c Absent 2 flaky_remote 0 1] two by blast
  have forever: "while_true failing_remote 2 7 (c, Absent) = None"
    using query_error_is_retried [of 2 c Absent 0 failing_remote 0 7] all by blast
  have slept0: "slept c = 0" by (simp add: c_def example_cursor_def)
  have answer: "iterations flaky_remote 2 1 (0 + 2) (c\<lparr>slept := slept c + 5 * 2\<rparr>, Absent) =
      (Break, c\<lparr>slept := slept c + 5 * 2\<rparr>, Absent)"
    by (simp add: flaky_remote_def loop_body_def c_def example_cursor_def)
  have three: "(3::nat) = 2 + 1" by simp
  have "iterations flaky_remote 2 3 0 (c, Absent) = (Break, c\<lparr>slept := slept c + 5 * 2\<rparr>, Absent)"
    unfolding three using retried answer by (rule trans)
  then show ?thesis
    using body forever by (simp add: c_def example_cursor_def del: iterations.simps)
qed

subsection \<open>The shape of the cursor at every iteration\<close>

lemma get_latest_cursor_no_id: "snd (get_latest_cursor pd file) = None"
  by (auto simp: get_latest_cursor_def read_with_tail_def read_with_pandas_def Let_def
      split: attempt.splits csv_file.splits option.splits if_splits)

lemma next_cursor_shape: "cursor_shape c \<Longrightarrow> cursor_shape (next_cursor at_once df c)"
  by (auto simp: next_cursor_def cursor_shape_def Let_def split: option.splits)

lemma loop_body_cursor_shape:
  assumes "cursor_shape c" and "loop_body at_once res (c, store) = (fl, c', store')"
  shows "cursor_shape c'"
proof (cases res)
  case Query_error
  then show ?thesis using assms by (auto simp: loop_body_def cursor_shape_def)
next
  case (Events evs)
  show ?thesis
  proof (cases "evs = []")
    case True
    then show ?thesis
      using assms Events by (auto simp: loop_body_def cursor_shape_def split: option.splits)
  next
    case False
    show ?thesis
    proof (cases "fromtimestamp_ok (timestamp (last (sort_values evs)))")
      case True
      then have "c' = (next_cursor at_once (sort_values evs) c)
          \<lparr>count := count (next_cursor at_once (sort_values evs) c) + 1,
           total_records := total_records (next_cursor at_once (sort_values evs) c) + length (sort_values evs)\<rparr>"
        using assms(2) Events False by (simp add: loop_body_def Let_def)
      then show ?thesis
        using next_cursor_shape [OF assms(1), of at_once "sort_values evs"]
        by (simp add: cursor_shape_def)
    next
      case out: False
      then have "c' = c" using assms(2) Events False by (simp add: loop_body_def Let_def)
      then show ?thesis using assms(1) by simp
    qed
  qed
qed

lemma iterations_cursor_shape:
  assumes "cursor_shape c" and "iterations execute at_once n k (c, store) = (fl, c', store')"
  shows "cursor_shape c'"
  using assms
proof (induction n arbitrary: k c store)
  case 0
  then show ?case by simp
next
  case (Suc n)
  obtain fl1 c1 store1 where body:
    "loop_body at_once (execute k (build_where_clause c) at_once) (c, store) = (fl1, c1, store1)"
    by (metis prod_cases3)
  have c1: "cursor_shape c1" using loop_body_cursor_shape [OF Suc.prems(1) body] .
  show ?case
  proof (cases fl1)
    case Continue
    then have "iterations execute at_once n (Suc k) (c1, store1) = (fl, c', store')"
      using Suc.prems(2) body by simp
    then show ?thesis using Suc.IH [OF c1] by blast
  next
    case Break
    then have "c' = c1" using Suc.prems(2) body by simp
    then show ?thesis using c1 by simp
  next
    case Raise
    then have "c' = c1" using Suc.prems(2) body by simp
    then show ?thesis using c1 by simp
  qed
qed

text \<open>
  C10. At the head of every iteration of a run of \<open>scrape\<close>, whatever the remote service
  answers, \<open>last_id\<close> is set exactly when \<open>sticky_timestamp\<close> is. In normal mode the
  \<open>where\<close> clause is \<open>timestamp_gt\<close> alone, without an id; in sticky mode it carries
  the id of the cursor.
\<close>

theorem cursor_shape_invariant:
  assumes "iterations execute at_once n 0 (start_cursor (get_latest_cursor pd file0), file0) = (fl, c, file)"
  shows "cursor_shape c
    \<and> (sticky_timestamp c = None \<longrightarrow> last_id c = None \<and> build_where_clause c = Timestamp_gt (last_timestamp c))
    \<and> (\<forall>t. sticky_timestamp c = Some t \<longrightarrow>
          (\<exists>i. last_id c = Some i \<and> build_where_clause c = Timestamp_id_gt t i))"
proof -
  have "cursor_shape (start_cursor (get_latest_cursor pd file0))"
    by (simp add: cursor_shape_def start_cursor_def get_latest_cursor_no_id)
  then have shape: "cursor_shape c" using iterations_cursor_shape assms by blast
  then show ?thesis
    by (auto simp: cursor_shape_def build_where_clause_def format_id_def)
qed

theorem cursor_shape_invariant_witness:
  "iterations (fixed_remote gap_source) 2 1 0 (start_cursor (get_latest_cursor pandas_int_column Absent), Absent) =
     (Continue, \<lparr>last_timestamp = 0, last_id = Some ''b'', sticky_timestamp = Some 2,
        count = 1, total_records = 2, slept = 0\<rparr>,
      to_csv [example_event 1 ''a'', example_event 2 ''b''] Absent)
   \<and> cursor_shape \<lparr>last_timestamp = 0, last_id = Some ''b'', sticky_timestamp = Some 2,
        count = 1, total_records = 2, slept = 0\<rparr>"
proof -
  have run: "iterations (fixed_remote gap_source) 2 1 0 (start_cursor (get_latest_cursor pandas_int_column Absent), Absent) =
     (Continue, \<lparr>last_timestamp = 0, last_id = Some ''b'', sticky_timestamp = Some 2,
        count = 1, total_records = 2, slept = 0\<rparr>,
      to_csv [example_event 1 ''a'', example_event 2 ''b''] Absent)"
    by code_simp
  show ?thesis using run cursor_shape_invariant [OF run] by simp
qed

subsection \<open>Reading the cursor back\<close>

text \<open>What \<open>str\<close> writes for an integer, \<open>int\<close> reads back.\<close>

lemma of_char_digit_char: "d < 10 \<Longrightarrow> (of_char (digit_char d) :: nat) = 48 + d"
  by (simp add: digit_char_def)

lemma is_digit_digit_char: "d < 10 \<Longrightarrow> is_digit (digit_char d)"
  by (simp add: is_digit_def of_char_digit_char)

lemma digit_value_digit_char: "d < 10 \<Longrightarrow> digit_value (digit_char d) = d"
  by (simp add: digit_value_def of_char_digit_char)

lemma is_space_below_digits: "is_space c \<Longrightarrow> (of_char c :: nat) < 48"
  by (auto simp: is_space_def)

lemma is_digit_not_space: "is_digit c \<Longrightarrow> \<not> is_space c"
  using is_space_below_digits [of c] by (auto simp: is_digit_def)

lemma is_digit_not_punctuation:
  assumes "is_digit c"
  shows "c \<noteq> CHR '',''" "c \<noteq> CHR ''-''" "c \<noteq> CHR ''+''" "c \<noteq> CHR ''_''"
  using assms by (auto simp: is_digit_def)

lemma str_nat_digits: "\<forall>c \<in> set (str_nat n). is_digit c"
proof (induction n rule: str_nat.induct)
  case (1 n)
  show ?case
  proof (cases "n < 10")
    case True
    then show ?thesis by (subst str_nat.simps) (simp add: is_digit_digit_char)
  next
    case False
    then show ?thesis using 1 by (subst str_nat.simps) (simp add: is_digit_digit_char)
  qed
qed

lemma str_nat_not_Nil: "str_nat n \<noteq> []"
  by (subst str_nat.simps) simp

lemma digits_value_foldl:
  "\<forall>c \<in> set xs. is_digit c \<Longrightarrow>
     digits_value a xs = Some (foldl (\<lambda>v c. 10 * v + digit_value c) a xs)"
  by (induction xs arbitrary: a) simp_all

lemma foldl_str_nat: "foldl (\<lambda>v c. 10 * v + digit_value c) 0 (str_nat n) = n"
proof (induction n rule: str_nat.induct)
  case (1 n)
  show ?case
  proof (cases "n < 10")
    case True
    then show ?thesis by (subst str_nat.simps) (simp add: digit_value_digit_char)
  next
    case False
    then show ?thesis using 1 by (subst str_nat.simps) (simp add: digit_value_digit_char)
  qed
qed

lemma py_nat_str_nat: "py_nat (str_nat n) = Some n"
proof -
  obtain c cs where s: "str_nat n = c # cs" using str_nat_not_Nil by (cases "str_nat n") auto
  have c: "is_digit c" using str_nat_digits [of n] s by simp
  have "digits_value 0 (str_nat n) = Some n"
    by (simp add: digits_value_foldl [OF str_nat_digits] foldl_str_nat)
  then have dv: "digits_value 0 (c # cs) = Some n" unfolding s .
  show ?thesis unfolding py_nat_def s using c dv by simp
qed

lemma punctuation_not_space: "\<not> is_space CHR ''-''" "\<not> is_space CHR '',''"
  by (simp_all add: is_space_def)

lemma strip_id:
  assumes "s \<noteq> []" "\<not> is_space (hd s)" "\<not> is_space (last s)"
  shows "strip s = s"
proof -
  have "dropWhile is_space s = s" using assms(1,2) by (cases s) auto
  moreover have "dropWhile is_space (rev s) = rev s"
    using assms(1,3) by (cases "rev s") (auto simp: last_rev [symmetric] hd_rev)
  ultimately show ?thesis by (simp add: strip_def)
qed

lemma is_int_blank_space: "is_int_blank c \<Longrightarrow> is_space c"
  by (auto simp: is_int_blank_def is_space_def)

lemma int_strip_id:
  assumes "s \<noteq> []" "\<not> is_space (hd s)" "\<not> is_space (last s)"
  shows "int_strip s = s"
proof -
  have "dropWhile is_int_blank s = s"
    using assms(1,2) is_int_blank_space by (cases s) auto
  moreover have "dropWhile is_int_blank (rev s) = rev s"
    using assms(1,3) is_int_blank_space by (cases "rev s") (auto simp: last_rev [symmetric] hd_rev)
  ultimately show ?thesis by (simp add: int_strip_def)
qed

lemma str_nat_ends: "is_digit (hd (str_nat n))" "is_digit (last (str_nat n))"
  using str_nat_digits [of n] str_nat_not_Nil [of n] by simp_all

lemma py_int_str_nat: "py_int (str_nat n) = Some (int n)"
proof -
  obtain c cs where s: "str_nat n = c # cs" using str_nat_not_Nil by (cases "str_nat n") auto
  have c: "is_digit c" using str_nat_ends(1) [of n] s by simp
  have "int_strip (str_nat n) = str_nat n"
    using str_nat_ends [of n] str_nat_not_Nil [of n] by (intro int_strip_id) (simp_all add: is_digit_not_space)
  then have st: "int_strip (str_nat n) = c # cs" using s by simp
  have "py_nat (c # cs) = Some n" using py_nat_str_nat [of n] s by simp
  then show ?thesis
    unfolding py_int_def st using is_digit_not_punctuation [OF c] by simp
qed

lemma py_int_minus_str_nat: "py_int (CHR ''-'' # str_nat n) = Some (- int n)"
proof -
  have "int_strip (CHR ''-'' # str_nat n) = CHR ''-'' # str_nat n"
    using str_nat_ends(2) [of n] str_nat_not_Nil [of n]
    by (intro int_strip_id) (simp_all add: is_digit_not_space punctuation_not_space)
  then show ?thesis
    unfolding py_int_def by (simp add: py_nat_str_nat)
qed

lemma py_int_str_int: "py_int (str_int t) = Some t"
  by (simp add: str_int_def py_int_str_nat py_int_minus_str_nat)

text \<open>The first field of a line that \<open>to_csv\<close> wrote is the timestamp.\<close>

lemma str_int_no_comma: "CHR '','' \<notin> set (str_int t)"
proof
  assume a: "CHR '','' \<in> set (str_int t)"
  then have "CHR '','' \<in> set (str_nat (nat (- t))) \<or> CHR '','' \<in> set (str_nat (nat t))"
    by (simp add: str_int_def split: if_splits)
  then have "is_digit CHR '',''" using str_nat_digits by blast
  then show False using is_digit_not_punctuation(1) by blast
qed

lemma str_int_starts_unblank: "str_int t \<noteq> []" "\<not> is_space (hd (str_int t))"
  using str_nat_ends(1) str_nat_not_Nil
  by (simp_all add: str_int_def is_digit_not_space punctuation_not_space)

lemma split_comma_first:
  "CHR '','' \<notin> set a \<Longrightarrow> split_comma (a @ CHR '','' # r) = a # split_comma r"
  by (induction a) auto

lemma strip_keeps_first_field:
  assumes "a \<noteq> []" "\<not> is_space (hd a)"
  shows "strip (a @ CHR '','' # r) = a @ CHR '','' # rev (dropWhile is_space (rev r))"
proof -
  have front: "dropWhile is_space (a @ CHR '','' # r) = a @ CHR '','' # r"
    using assms by (cases a) simp_all
  have behind: "dropWhile is_space (rev r @ CHR '','' # rev a) = dropWhile is_space (rev r) @ CHR '','' # rev a"
    by (simp add: dropWhile_append punctuation_not_space)
  show ?thesis
    unfolding strip_def front using behind by simp
qed

lemma csv_row_first_field:
  "\<exists>rest. split_comma (strip (csv_row e)) = str_int (timestamp e) # rest"
proof -
  obtain r where r: "csv_row e = str_int (timestamp e) @ CHR '','' # r"
    by (simp add: csv_row_def)
  have "strip (csv_row e) = str_int (timestamp e) @ CHR '','' # rev (dropWhile is_space (rev r))"
    unfolding r by (rule strip_keeps_first_field) (rule str_int_starts_unblank)+
  then show ?thesis by (simp add: split_comma_first str_int_no_comma)
qed

lemma header_columns: "split_comma (strip (join_comma COLUMNS_TO_SAVE)) = COLUMNS_TO_SAVE"
  by code_simp

lemma timestamp_column:
  "''timestamp'' \<in> set COLUMNS_TO_SAVE" "index COLUMNS_TO_SAVE ''timestamp'' = 0"
  by (simp_all add: COLUMNS_TO_SAVE_def)

lemma read_with_tail_fields:
  assumes "strip (tail_n1 ls) \<noteq> []"
    and "split_comma (strip (head_n1 ls)) = hs" and "''timestamp'' \<in> set hs"
    and "split_comma (strip (tail_n1 ls)) = vs" and "index hs ''timestamp'' < length vs"
  shows "read_with_tail (Present True ls) =
     (case py_int (vs ! index hs ''timestamp'') of
        None \<Rightarrow> Raised
      | Some l \<Rightarrow> if fromtimestamp_ok l then Returned (l - 1, None) else Raised)"
  unfolding read_with_tail_def using assms by (simp add: Let_def)

lemma read_with_tail_written:
  assumes "rows \<noteq> []"
  shows "read_with_tail (Present True (join_comma COLUMNS_TO_SAVE # ls @ map csv_row rows)) =
     (if fromtimestamp_ok (timestamp (last rows)) then Returned (timestamp (last rows) - 1, None) else Raised)"
proof -
  define header where "header = join_comma COLUMNS_TO_SAVE"
  let ?lines = "header # ls @ map csv_row rows"
  have t: "tail_n1 ?lines = csv_row (last rows)"
    using assms by (simp add: tail_n1_def last_map)
  have h: "head_n1 ?lines = header" by (simp add: head_n1_def)
  obtain rest where f: "split_comma (strip (csv_row (last rows))) = str_int (timestamp (last rows)) # rest"
    using csv_row_first_field by blast
  then have ne: "strip (csv_row (last rows)) \<noteq> []"
    using str_int_starts_unblank(1) [of "timestamp (last rows)"] by auto
  have "read_with_tail (Present True ?lines) =
     (case py_int ((str_int (timestamp (last rows)) # rest) ! index COLUMNS_TO_SAVE ''timestamp'') of
        None \<Rightarrow> Raised
      | Some l \<Rightarrow> if fromtimestamp_ok l then Returned (l - 1, None) else Raised)"
  proof (rule read_with_tail_fields)
    show "strip (tail_n1 ?lines) \<noteq> []" unfolding t by (rule ne)
    show "split_comma (strip (head_n1 ?lines)) = COLUMNS_TO_SAVE"
      by (simp only: h) (simp only: header_def header_columns)
    show "''timestamp'' \<in> set COLUMNS_TO_SAVE" by (rule timestamp_column)
    show "split_comma (strip (tail_n1 ?lines)) = str_int (timestamp (last rows)) # rest"
      unfolding t by (rule f)
    show "index COLUMNS_TO_SAVE ''timestamp'' < length (str_int (timestamp (last rows)) # rest)"
      by (simp add: timestamp_column)
  qed
  then show ?thesis
    unfolding header_def by (simp add: timestamp_column py_int_str_int del: join_comma.simps)
qed

lemma get_latest_cursor_written:
  assumes "rows \<noteq> []" and "fromtimestamp_ok (timestamp (last rows))"
  shows "get_latest_cursor pd (Present True (join_comma COLUMNS_TO_SAVE # ls @ map csv_row rows)) =
     (timestamp (last rows) - 1, None)"
  unfolding get_latest_cursor_def read_with_tail_written [OF assms(1)] using assms(2) by simp

lemma read_with_tail_blank:
  "strip (tail_n1 ls) = [] \<Longrightarrow> read_with_tail (Present True ls) = Fell_through"
  by (simp add: read_with_tail_def)

lemma read_with_tail_timestamp_field:
  "read_with_tail (Present True ls) =
     (if strip (tail_n1 ls) = [] then Fell_through
      else if ''timestamp'' \<in> set (split_comma (strip (head_n1 ls))) \<and>
          index (split_comma (strip (head_n1 ls))) ''timestamp'' < length (split_comma (strip (tail_n1 ls)))
      then (case timestamp_field ls of
              None \<Rightarrow> Raised
            | Some l \<Rightarrow> if fromtimestamp_ok l then Returned (l - 1, None) else Raised)
      else Fell_through)"
  by (simp add: read_with_tail_def timestamp_field_def Let_def)

lemma timestamp_field_Some:
  assumes "timestamp_field ls = Some l"
  shows "read_with_tail (Present True ls) =
     (if fromtimestamp_ok l then Returned (l - 1, None) else Raised)"
proof -
  have cols: "''timestamp'' \<in> set (split_comma (strip (head_n1 ls))) \<and>
      index (split_comma (strip (head_n1 ls))) ''timestamp'' < length (split_comma (strip (tail_n1 ls)))"
    using assms by (simp add: timestamp_field_def Let_def split: if_splits)
  have "strip (tail_n1 ls) \<noteq> []"
  proof
    assume "strip (tail_n1 ls) = []"
    then have "timestamp_field ls = None \<or> timestamp_field ls = py_int []"
      by (auto simp: timestamp_field_def Let_def)
    moreover have "py_int [] = None" by (simp add: py_int_def int_strip_def)
    ultimately show False using assms by auto
  qed
  then show ?thesis
    using cols assms by (simp add: read_with_tail_timestamp_field)
qed

lemma timestamp_field_None:
  assumes "timestamp_field ls = None"
  shows "read_with_tail (Present True ls) = Fell_through \<or> read_with_tail (Present True ls) = Raised"
  using assms by (simp add: read_with_tail_timestamp_field)

lemma timestamp_field_written:
  assumes "rows \<noteq> []"
  shows "timestamp_field (join_comma COLUMNS_TO_SAVE # ls @ map csv_row rows) = Some (timestamp (last rows))"
proof -
  define header where "header = join_comma COLUMNS_TO_SAVE"
  let ?lines = "header # ls @ map csv_row rows"
  have t: "tail_n1 ?lines = csv_row (last rows)"
    using assms by (simp add: tail_n1_def last_map)
  have h: "head_n1 ?lines = header" by (simp add: head_n1_def)
  obtain rest where f: "split_comma (strip (csv_row (last rows))) = str_int (timestamp (last rows)) # rest"
    using csv_row_first_field by blast
  have hc: "split_comma (strip header) = COLUMNS_TO_SAVE"
    by (simp only: header_def header_columns)
  have "timestamp_field ?lines = Some (timestamp (last rows))"
    unfolding timestamp_field_def t h hc f by (simp add: timestamp_column py_int_str_int)
  then show ?thesis by (simp only: header_def)
qed

lemma pandas_int_column_written:
  assumes "rows \<noteq> []" and "ls \<noteq> []"
  shows "pandas_int_column (ls @ map csv_row rows) = Some (timestamp (last rows))"
proof -
  obtain r where r: "csv_row (last rows) = str_int (timestamp (last rows)) @ CHR '','' # r"
    by (simp add: csv_row_def)
  have l: "last (ls @ map csv_row rows) = csv_row (last rows)"
    using assms(1) by (simp add: last_map)
  have n: "\<not> length (ls @ map csv_row rows) < 2"
    using assms by (cases ls; cases rows) simp_all
  show ?thesis
    unfolding pandas_int_column_def l using n
    by (simp add: r split_comma_first str_int_no_comma py_int_str_int)
qed

text \<open>
  What \<open>get_latest_cursor\<close> returns. It is total and never returns an id. It returns
  (0, None) for a file that is absent, that cannot be read, that is empty or ends in a
  blank line, and for a file from which neither reader gets a timestamp. When the
  timestamp field \<open>l\<close> of the last record is an integer that \<open>datetime.fromtimestamp\<close>
  accepts, it returns (\<open>l\<close> - 1, None); so it does for every file that \<open>to_csv\<close> wrote
  whose last timestamp is in that range. When \<open>l\<close> is outside that range, line 43 raises,
  pandas reads the same \<open>l\<close> or nothing, and the result is (0, None). When the line
  reader raises and pandas reads a timestamp \<open>l\<close> that \<open>datetime.fromtimestamp\<close> accepts,
  the result is (\<open>l\<close> - 1, None).
\<close>

lemma get_latest_cursor_contract:
  "snd (get_latest_cursor pd file) = None
   \<and> get_latest_cursor pd Absent = (0, None)
   \<and> get_latest_cursor pd (Present False ls) = (0, None)
   \<and> (strip (tail_n1 ls) = [] \<longrightarrow> get_latest_cursor pd (Present True ls) = (0, None))
   \<and> (timestamp_field ls = None \<and> pd ls = None \<longrightarrow>
        get_latest_cursor pd (Present True ls) = (0, None))
   \<and> (timestamp_field ls = Some l \<and> fromtimestamp_ok l \<longrightarrow>
        get_latest_cursor pd (Present True ls) = (l - 1, None))
   \<and> (timestamp_field ls = Some l \<and> \<not> fromtimestamp_ok l \<and> (pd ls = None \<or> pd ls = Some l) \<longrightarrow>
        get_latest_cursor pd (Present True ls) = (0, None))
   \<and> (read_with_tail (Present True ls) = Raised \<and> pd ls = Some l \<and> fromtimestamp_ok l \<longrightarrow>
        get_latest_cursor pd (Present True ls) = (l - 1, None))
   \<and> (rows \<noteq> [] \<and> fromtimestamp_ok (timestamp (last rows)) \<longrightarrow>
        get_latest_cursor pd (to_csv rows Absent) = (timestamp (last rows) - 1, None))"
proof -
  have no_id: "snd (get_latest_cursor pd file) = None" by (rule get_latest_cursor_no_id)
  have absent: "get_latest_cursor pd Absent = (0, None)" by (simp add: get_latest_cursor_def)
  have unreadable: "get_latest_cursor pd (Present False ls) = (0, None)"
    by (simp add: get_latest_cursor_def read_with_tail_def read_with_pandas_def)
  have blank: "get_latest_cursor pd (Present True ls) = (0, None)" if "strip (tail_n1 ls) = []"
    using that by (simp add: get_latest_cursor_def read_with_tail_blank)
  have malformed: "get_latest_cursor pd (Present True ls) = (0, None)"
    if "timestamp_field ls = None" "pd ls = None"
    using timestamp_field_None [OF that(1)] that(2)
    by (auto simp: get_latest_cursor_def read_with_pandas_def)
  have resumed: "get_latest_cursor pd (Present True ls) = (l - 1, None)"
    if "timestamp_field ls = Some l" "fromtimestamp_ok l"
    using timestamp_field_Some [OF that(1)] that(2) by (simp add: get_latest_cursor_def)
  have out_of_range: "get_latest_cursor pd (Present True ls) = (0, None)"
    if "timestamp_field ls = Some l" "\<not> fromtimestamp_ok l" "pd ls = None \<or> pd ls = Some l"
    using timestamp_field_Some [OF that(1)] that(2,3)
    by (auto simp: get_latest_cursor_def read_with_pandas_def)
  have fallback: "get_latest_cursor pd (Present True ls) = (l - 1, None)"
    if "read_with_tail (Present True ls) = Raised" "pd ls = Some l" "fromtimestamp_ok l"
    using that by (simp add: get_latest_cursor_def read_with_pandas_def)
  have written: "get_latest_cursor pd (to_csv rows Absent) = (timestamp (last rows) - 1, None)"
    if "rows \<noteq> []" "fromtimestamp_ok (timestamp (last rows))"
    using get_latest_cursor_written [OF that, of pd "[]"] by simp
  show ?thesis
    using no_id absent unreadable blank malformed resumed out_of_range fallback written by blast
qed

lemma get_latest_cursor_examples:
  "get_latest_cursor pandas_int_column Absent = (0, None)
   \<and> get_latest_cursor pandas_int_column (Present False [join_comma COLUMNS_TO_SAVE, csv_row (example_event 5 ''a'')]) = (0, None)
   \<and> get_latest_cursor pandas_int_column (Present True []) = (0, None)
   \<and> get_latest_cursor pandas_int_column (Present True [join_comma COLUMNS_TO_SAVE]) = (0, None)
   \<and> get_latest_cursor pandas_int_column (Present True [join_comma COLUMNS_TO_SAVE, ''5,m'', ''x,m'']) = (0, None)
   \<and> get_latest_cursor pandas_int_column (Present True [join_comma COLUMNS_TO_SAVE, ''x,m'', ''5,m'']) = (5 - 1, None)
   \<and> get_latest_cursor pandas_int_column (Present True [join_comma COLUMNS_TO_SAVE, csv_row far_future_event]) = (0, None)
   \<and> get_latest_cursor pandas_int_column (to_csv [example_event 1 ''a'', example_event 5 ''b''] Absent) =
       (timestamp (last [example_event 1 ''a'', example_event 5 ''b'']) - 1, None)
   \<and> get_latest_cursor (pandas_reads 12) (Present True [join_comma COLUMNS_TO_SAVE, ''12.0,m'']) = (12 - 1, None)"
proof -
  let ?h = "join_comma COLUMNS_TO_SAVE"
  let ?rows = "[example_event 1 ''a'', example_event 5 ''b'']"
  note contract = get_latest_cursor_contract [of pandas_int_column Absent]
  have blank: "strip (tail_n1 []) = []" by code_simp
  have header_only: "timestamp_field [?h] = None \<and> pandas_int_column [?h] = None" by code_simp
  have garbled: "timestamp_field [?h, ''5,m'', ''x,m''] = None \<and> pandas_int_column [?h, ''5,m'', ''x,m''] = None"
    by code_simp
  have good: "timestamp_field [?h, ''x,m'', ''5,m''] = Some 5 \<and> fromtimestamp_ok 5" by code_simp
  have far: "timestamp_field [?h, csv_row far_future_event] = Some 253402300800
      \<and> \<not> fromtimestamp_ok 253402300800
      \<and> (pandas_int_column [?h, csv_row far_future_event] = None
         \<or> pandas_int_column [?h, csv_row far_future_event] = Some 253402300800)"
    using timestamp_field_written [of "[far_future_event]" "[]"]
      pandas_int_column_written [of "[far_future_event]" "[?h]"]
    by (simp add: far_future_event_def example_event_def fromtimestamp_ok_def del: join_comma.simps)
  have rows: "?rows \<noteq> [] \<and> fromtimestamp_ok (timestamp (last ?rows))"
    by code_simp
  have 1: "get_latest_cursor pandas_int_column Absent = (0, None)"
    using contract [of "[]" 0 "[]"] by blast
  have 2: "get_latest_cursor pandas_int_column (Present False [?h, csv_row (example_event 5 ''a'')]) = (0, None)"
    using contract [of "[?h, csv_row (example_event 5 ''a'')]" 0 "[]"] by blast
  have 3: "get_latest_cursor pandas_int_column (Present True []) = (0, None)"
    using contract [of "[]" 0 "[]"] blank by blast
  have 4: "get_latest_cursor pandas_int_column (Present True [?h]) = (0, None)"
    using contract [of "[?h]" 0 "[]"] header_only by blast
  have 5: "get_latest_cursor pandas_int_column (Present True [?h, ''5,m'', ''x,m'']) = (0, None)"
    using contract [of "[?h, ''5,m'', ''x,m'']" 0 "[]"] garbled by blast
  have 6: "get_latest_cursor pandas_int_column (Present True [?h, ''x,m'', ''5,m'']) = (5 - 1, None)"
    using contract [of "[?h, ''x,m'', ''5,m'']" 5 "[]"] good by blast
  have 7: "get_latest_cursor pandas_int_column (Present True [?h, csv_row far_future_event]) = (0, None)"
    using contract [of "[?h, csv_row far_future_event]" 253402300800 "[]"] far by blast
  have 8: "get_latest_cursor pandas_int_column (to_csv ?rows Absent) = (timestamp (last ?rows) - 1, None)"
    using contract [of "[]" 0 ?rows] rows by blast
  have float: "read_with_tail (Present True [?h, ''12.0,m'']) = Raised
      \<and> pandas_reads 12 [?h, ''12.0,m''] = Some 12 \<and> fromtimestamp_ok 12"
    by code_simp
  have 9: "get_latest_cursor (pandas_reads 12) (Present True [?h, ''12.0,m'']) = (12 - 1, None)"
    using get_latest_cursor_contract [of "pandas_reads 12" Absent "[?h, ''12.0,m'']" 12 "[]"] float
    by blast
  show ?thesis
    using 1 2 3 4 5 6 7 8 9 by blast
qed


subsection \<open>Lists in ascending order of (timestamp, id)\<close>

lemma increasing_Cons: "increasing (x # xs) = ((\<forall>y \<in> set xs. sort_key_of x < sort_key_of y) \<and> increasing xs)"
  by (simp add: increasing_def)

lemma increasing_filter: "increasing xs \<Longrightarrow> increasing (filter P xs)"
  by (simp add: increasing_def sorted_wrt_filter)

lemma increasing_append:
  "increasing (xs @ ys) =
     (increasing xs \<and> increasing ys \<and> (\<forall>x \<in> set xs. \<forall>y \<in> set ys. sort_key_of x < sort_key_of y))"
  by (simp add: increasing_def sorted_wrt_append)

lemma increasing_take: "increasing xs \<Longrightarrow> increasing (take n xs)"
  using increasing_append [of "take n xs" "drop n xs"] by simp

lemma increasing_sorted: "increasing xs \<Longrightarrow> sorted (map sort_key_of xs)"
  unfolding increasing_def sorted_map
  by (rule sorted_wrt_mono_rel [of xs "\<lambda>a b. sort_key_of a < sort_key_of b"]) auto

lemma increasing_distinct_ids:
  "increasing xs \<Longrightarrow> distinct (map id_field source) \<Longrightarrow> set xs \<subseteq> set source \<Longrightarrow> distinct (map id_field xs)"
proof (induction xs)
  case Nil
  then show ?case by simp
next
  case (Cons x xs)
  have "id_field x \<noteq> id_field y" if "y \<in> set xs" for y
  proof
    assume eq: "id_field x = id_field y"
    have "x \<in> set source" "y \<in> set source" using Cons.prems(3) that by auto
    then have "x = y" using Cons.prems(2) eq by (meson distinct_map inj_onD)
    then show False using Cons.prems(1) that by (auto simp: increasing_Cons)
  qed
  then show ?case using Cons by (auto simp: increasing_Cons)
qed

lemma filter_split_increasing:
  assumes "increasing xs"
    and "\<And>a b. a \<in> set xs \<Longrightarrow> b \<in> set xs \<Longrightarrow> P a \<Longrightarrow> Q b \<Longrightarrow> sort_key_of a < sort_key_of b"
  shows "filter P xs @ filter Q xs = filter (\<lambda>e. P e \<or> Q e) xs"
  using assms
proof (induction xs)
  case Nil
  then show ?case by simp
next
  case (Cons x xs)
  have IH: "filter P xs @ filter Q xs = filter (\<lambda>e. P e \<or> Q e) xs"
    using Cons by (simp add: increasing_Cons)
  show ?case
  proof (cases "P x")
    case True
    then have "\<not> Q x" using Cons.prems(2) [of x x] by auto
    then show ?thesis using True IH by simp
  next
    case False
    show ?thesis
    proof (cases "Q x")
      case True
      have "filter P xs = []"
      proof (rule ccontr)
        assume "filter P xs \<noteq> []"
        then obtain a where a: "a \<in> set xs" "P a"
          by (metis filter_False)
        then have "sort_key_of a < sort_key_of x" using Cons.prems(2) [of a x] True by simp
        moreover have "sort_key_of x < sort_key_of a" using Cons.prems(1) a(1) by (simp add: increasing_Cons)
        ultimately show False by simp
      qed
      then show ?thesis using True False IH by simp
    next
      case False
      then show ?thesis using \<open>\<not> P x\<close> IH by simp
    qed
  qed
qed

lemma take_is_filter_increasing:
  assumes "increasing ys" and "take n ys \<noteq> []"
  shows "take n ys = filter (\<lambda>e. sort_key_of e \<le> sort_key_of (last (take n ys))) ys"
proof -
  let ?k = "sort_key_of (last (take n ys))"
  have inc: "increasing (take n ys @ drop n ys)" using assms(1) by simp
  have l: "last (take n ys) \<in> set (take n ys)" using assms(2) by simp
  define front where "front = butlast (take n ys)"
  have t: "take n ys = front @ [last (take n ys)]"
    unfolding front_def using assms(2) by simp
  have "increasing (front @ [last (take n ys)])"
    using increasing_take [OF assms(1), of n] t by simp
  then have before: "\<forall>x \<in> set front. sort_key_of x < ?k"
    unfolding increasing_append by simp
  have low: "sort_key_of e \<le> ?k" if "e \<in> set (take n ys)" for e
  proof -
    have "e \<in> set front \<or> e = last (take n ys)"
      using that by (subst (asm) t) auto
    then show ?thesis using before by auto
  qed
  have high: "\<not> sort_key_of e \<le> ?k" if "e \<in> set (drop n ys)" for e
    using inc l that unfolding increasing_append by (meson not_le)
  have "filter (\<lambda>e. sort_key_of e \<le> ?k) (take n ys @ drop n ys) = take n ys"
    unfolding filter_append using low high by (simp add: filter_empty_conv filter_id_conv)
  then show ?thesis by simp
qed

lemma key_less_iff:
  "sort_key_of a < sort_key_of b \<longleftrightarrow>
     timestamp a < timestamp b \<or> (timestamp a = timestamp b \<and> id_field a < id_field b)"
  by (auto simp: sort_key_of_def)

lemma key_le_pair:
  "sort_key_of e \<le> (t, i) \<longleftrightarrow> timestamp e < t \<or> (timestamp e = t \<and> id_field e \<le> i)"
  by (auto simp: sort_key_of_def)

lemma key_le_iff:
  "sort_key_of a \<le> sort_key_of b \<longleftrightarrow>
     timestamp a < timestamp b \<or> (timestamp a = timestamp b \<and> id_field a \<le> id_field b)"
  by (auto simp: sort_key_of_def)

lemma distinct_keys: "distinct (map id_field xs) \<Longrightarrow> distinct (map sort_key_of xs)"
proof (induction xs)
  case Nil
  then show ?case by simp
next
  case (Cons x xs)
  have "sort_key_of x \<notin> sort_key_of ` set xs"
  proof
    assume "sort_key_of x \<in> sort_key_of ` set xs"
    then obtain y where "y \<in> set xs" "sort_key_of x = sort_key_of y" by auto
    then have "id_field x \<in> id_field ` set xs" by (auto simp: sort_key_of_def)
    then show False using Cons.prems by simp
  qed
  then show ?case using Cons by simp
qed

lemma increasing_source:
  assumes "distinct (map id_field source)"
  shows "increasing (sort_key sort_key_of source)"
proof -
  let ?S = "sort_key sort_key_of source"
  have d: "distinct (map sort_key_of source)" using distinct_keys [OF assms] .
  then have "distinct (map sort_key_of ?S)" by (simp add: distinct_map)
  moreover have "sorted (map sort_key_of ?S)" by simp
  ultimately have "sorted_wrt (<) (map sort_key_of ?S)" by (simp add: strict_sorted_iff)
  then show ?thesis by (simp add: increasing_def sorted_wrt_map)
qed

lemma drop_duplicates_distinct: "distinct (map id_field xs) \<Longrightarrow> drop_duplicates xs = xs"
proof (induction xs)
  case Nil
  then show ?case by simp
next
  case (Cons x xs)
  then have "filter (\<lambda>y. id_field y \<noteq> id_field x) xs = xs"
    by (auto simp: filter_id_conv image_iff)
  then show ?case using Cons by simp
qed

lemma remote_query_facts:
  assumes "distinct (map id_field source)"
  shows "increasing (remote_query source w n)"
    and "sort_values (remote_query source w n) = remote_query source w n"
    and "drop_duplicates (remote_query source w n) = remote_query source w n"
proof -
  let ?B = "remote_query source w n"
  show inc: "increasing ?B"
    unfolding remote_query_def
    by (intro increasing_take increasing_filter increasing_source assms)
  show "sort_values ?B = ?B"
    unfolding sort_values_def by (rule sort_key_id_if_sorted) (rule increasing_sorted [OF inc])
  have "set ?B \<subseteq> set source"
    unfolding remote_query_def using set_take_subset [of n] by fastforce
  then have "distinct (map id_field ?B)"
    using increasing_distinct_ids [OF inc assms] by simp
  then show "drop_duplicates ?B = ?B" by (rule drop_duplicates_distinct)
qed

subsection \<open>The file of a run against a fixed remote source\<close>

text \<open>
  Against a source with pairwise distinct ids, each round of the loop appends exactly the
  events between the old cursor and the new one.
\<close>

lemma to_csv_written: "es' \<noteq> [] \<Longrightarrow> to_csv es' (written store es) = written store (es @ es')"
  by (cases store) (simp_all add: written_def)

lemma filter_grows:
  assumes "increasing S"
    and "\<And>a b. a \<in> set S \<Longrightarrow> b \<in> set S \<Longrightarrow> P a \<Longrightarrow> Q b \<Longrightarrow> sort_key_of a < sort_key_of b"
    and "\<And>e. e \<in> set S \<Longrightarrow> P' e = (P e \<or> Q e)"
  shows "filter P' S = filter P S @ filter Q S"
proof -
  have "filter P' S = filter (\<lambda>e. P e \<or> Q e) S"
    using assms(3) by (intro filter_cong) auto
  then show ?thesis using filter_split_increasing [OF assms(1,2)] by simp
qed

lemma full_batch_is_filter:
  assumes "increasing S" and "take n (filter Q S) \<noteq> []"
  shows "take n (filter Q S) =
     filter (\<lambda>e. Q e \<and> sort_key_of e \<le> sort_key_of (last (take n (filter Q S)))) S"
  using take_is_filter_increasing [OF increasing_filter [OF assms(1)] assms(2)]
  by (simp add: conj_commute)

lemma short_batch_is_filter:
  assumes "length (take n ys) < n"
  shows "take n ys = ys"
  using assms by simp

lemma last_in_batch:
  assumes "remote_query source w n \<noteq> []"
  shows "matches w (last (remote_query source w n))"
proof -
  have "last (remote_query source w n) \<in> set (remote_query source w n)"
    using assms by simp
  then have "last (remote_query source w n) \<in> set (filter (matches w) (sort_key sort_key_of source))"
    unfolding remote_query_def using set_take_subset by fastforce
  then show ?thesis by simp
qed

lemma grow_normal_full:
  assumes d: "distinct (map id_field source)"
    and c: "sticky_timestamp c = None" "c0 \<le> last_timestamp c"
    and B: "B = remote_query source (Timestamp_gt (last_timestamp c)) n" "B \<noteq> []"
    and c': "sticky_timestamp c' = Some (timestamp (last B))" "last_id c' = Some (id_field (last B))"
  shows "persisted c0 source c' = persisted c0 source c @ B \<and> c0 < timestamp (last B)"
proof -
  let ?S = "sort_key sort_key_of source"
  let ?Q = "\<lambda>e. matches (Timestamp_gt (last_timestamp c)) e \<and> sort_key_of e \<le> sort_key_of (last B)"
  have inc: "increasing ?S" using increasing_source [OF d] .
  have l: "last_timestamp c < timestamp (last B)"
    using last_in_batch [of source "Timestamp_gt (last_timestamp c)" n] B by simp
  have Beq: "B = filter ?Q ?S"
    using full_batch_is_filter [OF inc, of n "matches (Timestamp_gt (last_timestamp c))"] B
    by (simp add: remote_query_def)
  have "filter (\<lambda>e. c0 < timestamp e \<and> covered c' e) ?S =
      filter (\<lambda>e. c0 < timestamp e \<and> covered c e) ?S @ filter ?Q ?S"
  proof (rule filter_grows [OF inc])
    fix a b
    assume "c0 < timestamp a \<and> covered c a" "?Q b"
    then show "sort_key_of a < sort_key_of b"
      using c by (auto simp: covered_def key_less_iff)
  next
    fix e
    show "(c0 < timestamp e \<and> covered c' e) = ((c0 < timestamp e \<and> covered c e) \<or> ?Q e)"
      using c c' l by (auto simp: covered_def format_id_def key_le_iff sort_key_of_def)
  qed
  then show ?thesis using Beq l c by (simp add: persisted_def)
qed

lemma batch_last_greatest:
  assumes "increasing ys" and "ys \<noteq> []" and "e \<in> set ys"
  shows "sort_key_of e \<le> sort_key_of (last ys)"
proof -
  have "ys = butlast ys @ [last ys]" using assms(2) by simp
  then have i: "increasing (butlast ys @ [last ys])" and m: "e \<in> set (butlast ys @ [last ys])"
    using assms(1,3) by simp_all
  have "\<forall>x \<in> set (butlast ys). sort_key_of x < sort_key_of (last ys)"
    using i unfolding increasing_append by simp
  then show ?thesis using m by auto
qed

lemma short_batch_complete:
  assumes "B = remote_query source w n" and "length B < n"
  shows "B = filter (matches w) (sort_key sort_key_of source)"
  using assms by (simp add: remote_query_def)

lemma grow_normal_short:
  assumes d: "distinct (map id_field source)"
    and c: "sticky_timestamp c = None" "c0 \<le> last_timestamp c"
    and B: "B = remote_query source (Timestamp_gt (last_timestamp c)) n" "B \<noteq> []" "length B < n"
    and c': "sticky_timestamp c' = None" "last_timestamp c' = timestamp (last B)"
  shows "persisted c0 source c' = persisted c0 source c @ B \<and> c0 \<le> timestamp (last B)"
proof -
  let ?S = "sort_key sort_key_of source"
  let ?Q = "matches (Timestamp_gt (last_timestamp c))"
  have inc: "increasing ?S" using increasing_source [OF d] .
  have l: "last_timestamp c < timestamp (last B)"
    using last_in_batch [of source "Timestamp_gt (last_timestamp c)" n] B by simp
  have Beq: "B = filter ?Q ?S" using short_batch_complete B by blast
  have incB: "increasing B" using Beq increasing_filter [OF inc] by metis
  have "filter (\<lambda>e. c0 < timestamp e \<and> covered c' e) ?S =
      filter (\<lambda>e. c0 < timestamp e \<and> covered c e) ?S @ filter ?Q ?S"
  proof (rule filter_grows [OF inc])
    fix a b
    assume "c0 < timestamp a \<and> covered c a" "?Q b"
    then show "sort_key_of a < sort_key_of b"
      using c by (auto simp: covered_def key_less_iff)
  next
    fix e
    assume e: "e \<in> set ?S"
    have "timestamp e \<le> timestamp (last B)" if "?Q e"
    proof -
      have "e \<in> set B" using e that by (subst Beq) simp
      then have "sort_key_of e \<le> sort_key_of (last B)"
        using batch_last_greatest [OF incB B(2)] by blast
      then show ?thesis by (auto simp: key_le_iff)
    qed
    then show "(c0 < timestamp e \<and> covered c' e) = ((c0 < timestamp e \<and> covered c e) \<or> ?Q e)"
      using c c' l by (auto simp: covered_def)
  qed
  then show ?thesis using Beq l c by (simp add: persisted_def)
qed

lemma grow_sticky_full:
  assumes d: "distinct (map id_field source)"
    and c: "sticky_timestamp c = Some t" "c0 < t"
    and B: "B = remote_query source (Timestamp_id_gt t (format_id (last_id c))) n" "B \<noteq> []"
    and c': "sticky_timestamp c' = Some (timestamp (last B))" "last_id c' = Some (id_field (last B))"
  shows "persisted c0 source c' = persisted c0 source c @ B \<and> c0 < timestamp (last B)"
proof -
  let ?S = "sort_key sort_key_of source"
  let ?w = "Timestamp_id_gt t (format_id (last_id c))"
  let ?Q = "\<lambda>e. matches ?w e \<and> sort_key_of e \<le> sort_key_of (last B)"
  have inc: "increasing ?S" using increasing_source [OF d] .
  have l: "timestamp (last B) = t" "format_id (last_id c) < id_field (last B)"
    using last_in_batch [of source ?w n] B by simp_all
  have Beq: "B = filter ?Q ?S"
    using full_batch_is_filter [OF inc, of n "matches ?w"] B
    by (simp add: remote_query_def)
  have "filter (\<lambda>e. c0 < timestamp e \<and> covered c' e) ?S =
      filter (\<lambda>e. c0 < timestamp e \<and> covered c e) ?S @ filter ?Q ?S"
  proof (rule filter_grows [OF inc])
    fix a b
    assume "c0 < timestamp a \<and> covered c a" "?Q b"
    then show "sort_key_of a < sort_key_of b"
      using c by (auto simp: covered_def key_less_iff key_le_pair)
  next
    fix e
    show "(c0 < timestamp e \<and> covered c' e) = ((c0 < timestamp e \<and> covered c e) \<or> ?Q e)"
      using c c' l by (auto simp: covered_def format_id_def key_le_iff key_le_pair)
  qed
  then show ?thesis using Beq l c by (simp add: persisted_def)
qed

lemma grow_sticky_short:
  assumes d: "distinct (map id_field source)"
    and c: "sticky_timestamp c = Some t" "c0 < t"
    and B: "B = remote_query source (Timestamp_id_gt t (format_id (last_id c))) n" "length B < n"
    and c': "sticky_timestamp c' = None" "last_timestamp c' = t"
  shows "persisted c0 source c' = persisted c0 source c @ B"
proof -
  let ?S = "sort_key sort_key_of source"
  let ?Q = "matches (Timestamp_id_gt t (format_id (last_id c)))"
  have inc: "increasing ?S" using increasing_source [OF d] .
  have Beq: "B = filter ?Q ?S" using short_batch_complete B by blast
  have "filter (\<lambda>e. c0 < timestamp e \<and> covered c' e) ?S =
      filter (\<lambda>e. c0 < timestamp e \<and> covered c e) ?S @ filter ?Q ?S"
  proof (rule filter_grows [OF inc])
    fix a b
    assume "c0 < timestamp a \<and> covered c a" "?Q b"
    then show "sort_key_of a < sort_key_of b"
      using c by (auto simp: covered_def key_less_iff key_le_pair)
  next
    fix e
    show "(c0 < timestamp e \<and> covered c' e) = ((c0 < timestamp e \<and> covered c e) \<or> ?Q e)"
      using c c' by (auto simp: covered_def key_le_pair)
  qed
  then show ?thesis using Beq by (simp add: persisted_def)
qed

lemma harvested_step:
  assumes d: "distinct (map id_field source)" and n: "0 < n"
    and inv: "harvested file0 c0 source (c, store)"
    and step: "loop_body n (fixed_remote source k (build_where_clause c) n) (c, store) = (fl, c', store')"
  shows "harvested file0 c0 source (c', store')"
proof -
  define B where "B = remote_query source (build_where_clause c) n"
  note facts = remote_query_facts [OF d, of "build_where_clause c" n, folded B_def]
  have st: "store = written file0 (persisted c0 source c)"
    using inv by (simp add: harvested_def)
  have body: "loop_body n (Events B) (c, store) = (fl, c', store')"
    using step by (simp add: fixed_remote_def B_def)
  show ?thesis
  proof (cases "B \<noteq> [] \<and> \<not> fromtimestamp_ok (timestamp (last B))")
    case True
    then have "c' = c" "store' = store"
      using body by (simp_all add: loop_body_def Let_def facts)
    then show ?thesis using inv by simp
  next
    case ok: False
  show ?thesis
  proof (cases "sticky_timestamp c")
    case None
    then have w: "build_where_clause c = Timestamp_gt (last_timestamp c)"
      by (simp add: build_where_clause_def)
    have lo: "c0 \<le> last_timestamp c" using inv None by (simp add: harvested_def)
    show ?thesis
    proof (cases "B = []")
      case True
      then have "c' = c" "store' = store" using body None by (simp_all add: loop_body_def)
      then show ?thesis using inv by simp
    next
      case False
      have store': "store' = to_csv B store"
        using body False ok by (simp add: loop_body_def Let_def facts)
      show ?thesis
      proof (cases "n \<le> length B")
        case True
        have c': "sticky_timestamp c' = Some (timestamp (last B))" "last_id c' = Some (id_field (last B))"
          using body False True ok by (auto simp: loop_body_def Let_def facts next_cursor_def)
        have "persisted c0 source c' = persisted c0 source c @ B \<and> c0 < timestamp (last B)"
          using grow_normal_full [OF d None lo _ False c'] B_def w by simp
        then show ?thesis
          using c' store' st False by (simp add: harvested_def to_csv_written)
      next
        case short: False
        have c': "sticky_timestamp c' = None" "last_timestamp c' = timestamp (last B)"
          using body False short None ok by (auto simp: loop_body_def Let_def facts next_cursor_def)
        have "persisted c0 source c' = persisted c0 source c @ B \<and> c0 \<le> timestamp (last B)"
          using grow_normal_short [OF d None lo _ False _ c'] B_def w short by simp
        then show ?thesis
          using c' store' st False by (simp add: harvested_def to_csv_written)
      qed
    qed
  next
    case (Some t)
    then have w: "build_where_clause c = Timestamp_id_gt t (format_id (last_id c))"
      by (simp add: build_where_clause_def)
    have lo: "c0 < t" using inv Some by (simp add: harvested_def)
    show ?thesis
    proof (cases "n \<le> length B")
      case True
      then have ne: "B \<noteq> []" using n by auto
      have store': "store' = to_csv B store"
        using body ne ok by (simp add: loop_body_def Let_def facts)
      have c': "sticky_timestamp c' = Some (timestamp (last B))" "last_id c' = Some (id_field (last B))"
        using body ne True ok by (auto simp: loop_body_def Let_def facts next_cursor_def)
      have "persisted c0 source c' = persisted c0 source c @ B \<and> c0 < timestamp (last B)"
        using grow_sticky_full [OF d Some lo _ ne c'] B_def w by simp
      then show ?thesis
        using c' store' st ne by (simp add: harvested_def to_csv_written)
    next
      case short: False
      have c': "sticky_timestamp c' = None" "last_timestamp c' = t"
        using body short Some ok by (auto simp: loop_body_def Let_def facts next_cursor_def split: if_splits)
      have store': "store' = (if B = [] then store else to_csv B store)"
        using body Some ok by (auto simp: loop_body_def Let_def facts split: if_splits)
      have "persisted c0 source c' = persisted c0 source c @ B"
        using grow_sticky_short [OF d Some lo _ _ c'] B_def w short by simp
      then show ?thesis
        using c' store' st lo by (auto simp: harvested_def to_csv_written)
    qed
  qed
qed
qed

lemma harvested_iterations:
  assumes d: "distinct (map id_field source)" and n: "0 < n"
    and inv: "harvested file0 c0 source (c, store)"
    and run: "iterations (fixed_remote source) n fuel k (c, store) = (fl, c', store')"
  shows "harvested file0 c0 source (c', store')"
  using inv run
proof (induction fuel arbitrary: k c store)
  case 0
  then show ?case by simp
next
  case (Suc fuel)
  obtain fl1 c1 store1 where body:
    "loop_body n (fixed_remote source k (build_where_clause c) n) (c, store) = (fl1, c1, store1)"
    by (metis prod_cases3)
  have h1: "harvested file0 c0 source (c1, store1)"
    using harvested_step [OF d n Suc.prems(1) body] .
  show ?case
  proof (cases fl1)
    case Continue
    then have "iterations (fixed_remote source) n fuel (Suc k) (c1, store1) = (fl, c', store')"
      using Suc.prems(2) body by simp
    then show ?thesis using Suc.IH [OF h1] by blast
  next
    case Break
    then have "c' = c1" "store' = store1" using Suc.prems(2) body by simp_all
    then show ?thesis using h1 by simp
  next
    case Raise
    then have "c' = c1" "store' = store1" using Suc.prems(2) body by simp_all
    then show ?thesis using h1 by simp
  qed
qed

lemma harvested_start:
  "harvested file0 (fst (get_latest_cursor pd file0)) source (start_cursor (get_latest_cursor pd file0), file0)"
  by (simp add: harvested_def start_cursor_def persisted_def covered_def written_def)

lemma persisted_increasing:
  "distinct (map id_field source) \<Longrightarrow> increasing (persisted c0 source c)"
  unfolding persisted_def by (intro increasing_filter increasing_source)

lemma persisted_subset: "set (persisted c0 source c) \<subseteq> set source"
  by (auto simp: persisted_def)

lemma persisted_after: "e \<in> set (persisted c0 source c) \<Longrightarrow> c0 < timestamp e"
  by (simp add: persisted_def)


lemma drop_duplicates_not_Nil: "es \<noteq> [] \<Longrightarrow> drop_duplicates es \<noteq> []"
  by (cases es) simp_all

lemma sort_values_not_Nil: "es \<noteq> [] \<Longrightarrow> sort_values es \<noteq> []"
  using length_sort [of sort_key_of es] by (auto simp: sort_values_def simp del: length_sort)





lemma scrape_iterations:
  "scrape pd execute n fuel store = Some (Inr (c', store')) \<Longrightarrow>
     iterations execute n fuel 0 (start_cursor (get_latest_cursor pd store), store) = (Break, c', store')"
  by (auto simp: scrape_def while_true_def split: prod.splits flow.splits)

lemma written_Absent: "es \<noteq> [] \<Longrightarrow> written Absent es = Present True (join_comma COLUMNS_TO_SAVE # [] @ map csv_row es)"
  by (simp add: written_def del: join_comma.simps)

subsection \<open>The order of the rows, for any remote service that keeps to the filter\<close>

lemma loop_body_appended:
  assumes "loop_body n res (c, store) = (fl, c', store')"
  shows "store' = written store (appended res)"
proof (cases res)
  case Query_error
  then show ?thesis using assms by (auto simp: loop_body_def appended_def written_def)
next
  case (Events evs)
  show ?thesis
  proof (cases "evs = []")
    case True
    then show ?thesis
      using assms Events
      by (auto simp: loop_body_def appended_def written_def split: option.splits)
  next
    case False
    show ?thesis
    proof (cases "fromtimestamp_ok (timestamp (last (sort_values evs)))")
      case True
      then have "store' = to_csv (drop_duplicates (sort_values evs)) store"
        using assms Events False by (auto simp: loop_body_def Let_def)
      then show ?thesis
        using True False Events drop_duplicates_not_Nil sort_values_not_Nil
        by (simp add: appended_def written_def)
    next
      case out: False
      then have "store' = store"
        using assms Events False by (simp add: loop_body_def Let_def)
      then show ?thesis using out Events by (simp add: appended_def written_def)
    qed
  qed
qed

lemma written_written: "es \<noteq> [] \<Longrightarrow> written (written store es) es' = written store (es @ es')"
  by (cases store) (simp_all add: written_def)

lemma iterations_harvest_log:
  assumes "iterations execute n fuel k (c, store) = (fl, c', store')"
  shows "store' = written store (harvest_log execute n fuel k (c, store))"
  using assms
proof (induction fuel arbitrary: k c store)
  case 0
  then show ?case by (simp add: written_def)
next
  case (Suc fuel)
  let ?res = "execute k (build_where_clause c) n"
  obtain fl1 c1 store1 where body: "loop_body n ?res (c, store) = (fl1, c1, store1)"
    by (metis prod_cases3)
  have s1: "store1 = written store (appended ?res)" using loop_body_appended [OF body] .
  show ?case
  proof (cases fl1)
    case Continue
    then have "iterations execute n fuel (Suc k) (c1, store1) = (fl, c', store')"
      using Suc.prems body by simp
    then have "store' = written store1 (harvest_log execute n fuel (Suc k) (c1, store1))"
      by (rule Suc.IH)
    then show ?thesis
      using s1 body Continue by (cases "appended ?res = []") (simp_all add: written_written, simp add: written_def)
  next
    case Break
    then show ?thesis using Suc.prems body s1 by simp
  next
    case Raise
    then show ?thesis using Suc.prems body s1 by simp
  qed
qed

lemma covered_order:
  "covered c a \<Longrightarrow> matches (build_where_clause c) b \<Longrightarrow> sort_key_of a < sort_key_of b"
  by (auto simp: covered_def build_where_clause_def key_less_iff key_le_pair split: option.splits)

lemma set_drop_duplicates: "set (drop_duplicates es) \<subseteq> set es"
  by (induction es) auto

lemma sorted_drop_duplicates:
  "sorted (map sort_key_of es) \<Longrightarrow> sorted (map sort_key_of (drop_duplicates es))"
proof (induction es)
  case Nil
  then show ?case by simp
next
  case (Cons e es)
  have "sorted (map sort_key_of (filter (\<lambda>x. id_field x \<noteq> id_field e) (drop_duplicates es)))"
    using Cons by (simp add: sorted_map sorted_wrt_filter)
  moreover have "\<forall>x \<in> set (drop_duplicates es). sort_key_of e \<le> sort_key_of x"
    using Cons.prems set_drop_duplicates [of es] by auto
  ultimately show ?case by simp
qed

lemma sorted_keys_last_greatest:
  assumes "sorted (map sort_key_of df)" and "b \<in> set df"
  shows "sort_key_of b \<le> sort_key_of (last df)"
proof -
  have "df \<noteq> []" using assms(2) by auto
  then have "df = butlast df @ [last df]" by simp
  then have s: "sorted (map sort_key_of (butlast df @ [last df]))" and m: "b \<in> set (butlast df @ [last df])"
    using assms by simp_all
  have "\<forall>x \<in> set (butlast df). sort_key_of x \<le> sort_key_of (last df)"
    using s by (simp add: sorted_append)
  then show ?thesis using m by auto
qed

lemma behind_counters:
  "behind c0 (c\<lparr>count := x, total_records := y\<rparr>) es = behind c0 c es"
  "behind c0 (c\<lparr>slept := z\<rparr>) es = behind c0 c es"
  by (simp_all add: behind_def covered_def cong: option.case_cong)

lemma behind_next_cursor:
  assumes inv: "behind c0 c es"
    and df: "df \<noteq> []" "sorted (map sort_key_of df)" "\<forall>e \<in> set df. matches (build_where_clause c) e"
    and A: "set A \<subseteq> set df" "sorted (map sort_key_of A)"
  shows "behind c0 (next_cursor n df c) (es @ A)"
proof -
  let ?c' = "next_cursor n df c"
  have l: "matches (build_where_clause c) (last df)" using df(1,3) by simp
  have top: "sort_key_of b \<le> sort_key_of (last df)" if "b \<in> set df" for b
    using sorted_keys_last_greatest [OF df(2) that] .
  have order: "sort_key_of a \<le> sort_key_of b" if "a \<in> set es" "b \<in> set A" for a b
  proof -
    have "covered c a" using inv that(1) by (simp add: behind_def)
    moreover have "matches (build_where_clause c) b" using that(2) A(1) df(3) by auto
    ultimately show ?thesis using covered_order by (simp add: less_imp_le)
  qed
  have sorted: "sorted (map sort_key_of (es @ A))"
    using inv A(2) order by (simp add: behind_def sorted_append)
  have old: "covered ?c' a" if "a \<in> set es" for a
  proof -
    have "covered c a" using inv that by (simp add: behind_def)
    then show ?thesis
      using l by (auto simp: next_cursor_def Let_def covered_def build_where_clause_def format_id_def
          key_le_pair split: option.splits)
  qed
  have new: "covered ?c' b \<and> c0 < timestamp b" if "b \<in> set A" for b
  proof -
    have m: "matches (build_where_clause c) b" and t: "sort_key_of b \<le> sort_key_of (last df)"
      using that A(1) df(3) top by auto
    show ?thesis
      using m t l inv
      by (auto simp: next_cursor_def Let_def covered_def build_where_clause_def format_id_def
          behind_def key_le_pair key_le_iff sort_key_of_def split: option.splits)
  qed
  have bounds: "case sticky_timestamp ?c' of None \<Rightarrow> c0 \<le> last_timestamp ?c' | Some t \<Rightarrow> c0 < t"
    using l inv
    by (auto simp: next_cursor_def Let_def build_where_clause_def behind_def split: option.splits)
  show ?thesis
    using sorted old new bounds inv by (auto simp: behind_def)
qed

lemma behind_step:
  assumes honest: "\<And>evs. res = Events evs \<Longrightarrow> \<forall>e \<in> set evs. matches (build_where_clause c) e"
    and inv: "behind c0 c es"
    and body: "loop_body n res (c, store) = (fl, c', store')"
  shows "behind c0 c' (es @ appended res)"
proof (cases res)
  case Query_error
  then have "c' = c\<lparr>slept := slept c + 5\<rparr>" using body by (simp add: loop_body_def)
  then show ?thesis using inv Query_error by (simp add: behind_counters appended_def)
next
  case (Events evs)
  show ?thesis
  proof (cases "evs = []")
    case True
    then have a: "appended res = []" using Events by (simp add: appended_def)
    show ?thesis
    proof (cases "sticky_timestamp c")
      case None
      then have "c' = c" using body Events True by (simp add: loop_body_def)
      then show ?thesis using inv a by simp
    next
      case (Some t)
      then have "c' = c\<lparr>last_timestamp := t, sticky_timestamp := None, last_id := None\<rparr>"
        using body Events True by (simp add: loop_body_def)
      then show ?thesis
        using inv a Some by (auto simp: behind_def covered_def key_le_pair)
    qed
  next
    case False
    let ?df = "sort_values evs"
    show ?thesis
    proof (cases "fromtimestamp_ok (timestamp (last ?df))")
      case out: False
      then have "c' = c" "appended res = []"
        using body Events False by (simp_all add: loop_body_def Let_def appended_def)
      then show ?thesis using inv by simp
    next
      case True
      then have c': "c' = (next_cursor n ?df c)
          \<lparr>count := count (next_cursor n ?df c) + 1,
           total_records := total_records (next_cursor n ?df c) + length ?df\<rparr>"
        using body Events False by (simp add: loop_body_def Let_def)
      have a: "appended res = drop_duplicates ?df"
        using Events False True by (simp add: appended_def)
      have "behind c0 (next_cursor n ?df c) (es @ drop_duplicates ?df)"
      proof (rule behind_next_cursor [OF inv])
        show "?df \<noteq> []" using False by (rule sort_values_not_Nil)
        show "sorted (map sort_key_of ?df)" by (simp add: sort_values_def)
        show "\<forall>e \<in> set ?df. matches (build_where_clause c) e"
          using honest [OF Events] by (simp add: sort_values_def)
        show "set (drop_duplicates ?df) \<subseteq> set ?df" by (rule set_drop_duplicates)
        show "sorted (map sort_key_of (drop_duplicates ?df))"
          by (rule sorted_drop_duplicates) (simp add: sort_values_def)
      qed
      then show ?thesis unfolding c' a by (simp add: behind_counters)
    qed
  qed
qed

lemma behind_iterations:
  assumes honest: "\<forall>k w evs. execute k w n = Events evs \<longrightarrow> (\<forall>e \<in> set evs. matches w e)"
    and inv: "behind c0 c es"
    and run: "iterations execute n fuel k (c, store) = (fl, c', store')"
  shows "behind c0 c' (es @ harvest_log execute n fuel k (c, store))"
  using inv run
proof (induction fuel arbitrary: k c store es)
  case 0
  then show ?case by simp
next
  case (Suc fuel)
  let ?res = "execute k (build_where_clause c) n"
  obtain fl1 c1 store1 where body: "loop_body n ?res (c, store) = (fl1, c1, store1)"
    by (metis prod_cases3)
  have h: "\<And>evs. ?res = Events evs \<Longrightarrow> \<forall>e \<in> set evs. matches (build_where_clause c) e"
    using honest by blast
  have b1: "behind c0 c1 (es @ appended ?res)"
    using behind_step [OF h Suc.prems(1) body] by blast
  show ?case
  proof (cases fl1)
    case Continue
    then have "iterations execute n fuel (Suc k) (c1, store1) = (fl, c', store')"
      using Suc.prems(2) body by simp
    then have "behind c0 c' ((es @ appended ?res) @ harvest_log execute n fuel (Suc k) (c1, store1))"
      using Suc.IH [OF b1] by blast
    then show ?thesis using body Continue by simp
  next
    case Break
    then have "c' = c1" using Suc.prems(2) body by simp
    then show ?thesis using b1 body Break by simp
  next
    case Raise
    then have "c' = c1" using Suc.prems(2) body by simp
    then show ?thesis using b1 body Raise by simp
  qed
qed

lemma behind_start:
  "behind (fst (get_latest_cursor pd store)) (start_cursor (get_latest_cursor pd store)) []"
  by (simp add: behind_def start_cursor_def)

lemma sorted_keys_timestamps: "sorted (map sort_key_of es) \<Longrightarrow> sorted (map timestamp es)"
proof -
  assume "sorted (map sort_key_of es)"
  then have "sorted_wrt (\<lambda>a b. sort_key_of a \<le> sort_key_of b) es" by (simp add: sorted_map)
  then have "sorted_wrt (\<lambda>a b. timestamp a \<le> timestamp b) es"
    by (rule sorted_wrt_mono_rel [rotated]) (auto simp: key_le_iff)
  then show ?thesis by (simp add: sorted_map)
qed

lemma sorted_last_greatest:
  assumes "sorted (map timestamp es)" and "e \<in> set es"
  shows "timestamp e \<le> timestamp (last es)"
proof -
  have ne: "es \<noteq> []" using assms(2) by auto
  then have "es = butlast es @ [last es]" by simp
  then have s: "sorted (map timestamp (butlast es @ [last es]))" and m: "e \<in> set (butlast es @ [last es])"
    using assms by simp_all
  have "\<forall>x \<in> set (butlast es). timestamp x \<le> timestamp (last es)"
    using s by (simp add: sorted_append)
  then show ?thesis using m by auto
qed

lemma fixed_remote_matches:
  "\<forall>k w evs. fixed_remote source k w n = Events evs \<longrightarrow> (\<forall>e \<in> set evs. matches w e)"
  by (auto simp: fixed_remote_def remote_query_def dest: in_set_takeD)






subsection \<open>A second run\<close>




subsection \<open>The order of the store\<close>

text \<open>
  C7, as amended. Timestamps are integers, and the remote service returns only events
  that satisfy the filter of the query it answers. After every round of a run that
  started from an absent store, the file holds the header and the rows of a list of
  events in ascending order of (timestamp, id), the timestamp compared as an integer and
  the id as a string. After every round of a run resumed from a store that holds the
  header and the rows of the events \<open>stored\<close> (not empty, in ascending order of
  timestamp, the last timestamp one that \<open>datetime.fromtimestamp\<close> accepts), the file
  holds the rows of \<open>stored\<close> and then the rows the run appended: all of them are in
  ascending order of timestamp, and the appended ones are among themselves in ascending
  order of (timestamp, id). The order of the ids across the old and the new rows is not
  kept. The rows do not carry the id, so the order is stated on the events whose rows
  the file holds.
\<close>

theorem store_order_invariant:
  assumes honest: "\<forall>k w evs. execute k w at_once = Events evs \<longrightarrow> (\<forall>e \<in> set evs. matches w e)"
  shows "(iterations execute at_once fuel 0
            (start_cursor (get_latest_cursor pd Absent), Absent) = (fl, c, store) \<longrightarrow>
          store = written Absent
            (harvest_log execute at_once fuel 0 (start_cursor (get_latest_cursor pd Absent), Absent))
          \<and> sorted (map sort_key_of
            (harvest_log execute at_once fuel 0 (start_cursor (get_latest_cursor pd Absent), Absent))))
    \<and> (stored \<noteq> [] \<and> sorted (map timestamp stored) \<and> fromtimestamp_ok (timestamp (last stored))
        \<and> iterations execute at_once fuel 0
            (start_cursor (get_latest_cursor pd (written Absent stored)), written Absent stored) = (fl, c, store) \<longrightarrow>
          store = written Absent (stored @ harvest_log execute at_once fuel 0
            (start_cursor (get_latest_cursor pd (written Absent stored)), written Absent stored))
          \<and> sorted (map timestamp (stored @ harvest_log execute at_once fuel 0
            (start_cursor (get_latest_cursor pd (written Absent stored)), written Absent stored)))
          \<and> sorted (map sort_key_of (harvest_log execute at_once fuel 0
            (start_cursor (get_latest_cursor pd (written Absent stored)), written Absent stored))))"
proof -
  have rows: "store' = written store0 (harvest_log execute at_once fuel 0 (start_cursor (get_latest_cursor pd store0), store0))
      \<and> behind (fst (get_latest_cursor pd store0)) c'
          (harvest_log execute at_once fuel 0 (start_cursor (get_latest_cursor pd store0), store0))"
    if run: "iterations execute at_once fuel 0
        (start_cursor (get_latest_cursor pd store0), store0) = (fl, c', store')"
    for store0 c' store'
    using iterations_harvest_log [OF run] behind_iterations [OF honest behind_start run] by simp
  have fresh: "store = written Absent
        (harvest_log execute at_once fuel 0 (start_cursor (get_latest_cursor pd Absent), Absent))
      \<and> sorted (map sort_key_of
        (harvest_log execute at_once fuel 0 (start_cursor (get_latest_cursor pd Absent), Absent)))"
    if run: "iterations execute at_once fuel 0
        (start_cursor (get_latest_cursor pd Absent), Absent) = (fl, c, store)"
    using rows [OF run] by (simp add: behind_def)
  have resumed: "store = written Absent (stored @ harvest_log execute at_once fuel 0
        (start_cursor (get_latest_cursor pd (written Absent stored)), written Absent stored))
      \<and> sorted (map timestamp (stored @ harvest_log execute at_once fuel 0
        (start_cursor (get_latest_cursor pd (written Absent stored)), written Absent stored)))
      \<and> sorted (map sort_key_of (harvest_log execute at_once fuel 0
        (start_cursor (get_latest_cursor pd (written Absent stored)), written Absent stored)))"
    if stored: "stored \<noteq> []" "sorted (map timestamp stored)" "fromtimestamp_ok (timestamp (last stored))"
      and run: "iterations execute at_once fuel 0
        (start_cursor (get_latest_cursor pd (written Absent stored)), written Absent stored) = (fl, c, store)"
  proof -
    let ?L = "timestamp (last stored)"
    let ?log = "harvest_log execute at_once fuel 0
        (start_cursor (get_latest_cursor pd (written Absent stored)), written Absent stored)"
    have cur: "get_latest_cursor pd (written Absent stored) = (?L - 1, None)"
      unfolding written_Absent [OF stored(1)] using get_latest_cursor_written [OF stored(1,3)] by blast
    have st: "store = written Absent (stored @ ?log)"
      using rows [OF run] by (simp add: written_written [OF stored(1)])
    have inv: "behind (?L - 1) c ?log" using rows [OF run] by (simp add: cur)
    then have keys: "sorted (map sort_key_of ?log)" by (simp add: behind_def)
    have "timestamp x \<le> timestamp y" if "x \<in> set stored" "y \<in> set ?log" for x y
    proof -
      have "?L - 1 < timestamp y" using inv that(2) by (simp add: behind_def)
      then show ?thesis using sorted_last_greatest [OF stored(2) that(1)] by simp
    qed
    then have "sorted (map timestamp (stored @ ?log))"
      using stored(2) sorted_keys_timestamps [OF keys] by (simp add: sorted_append)
    then show ?thesis using st keys by simp
  qed
  show ?thesis using fresh resumed by blast
qed

theorem store_order_invariant_witness:
  "iterations (fixed_remote gap_source) 2 2 0
        (start_cursor (get_latest_cursor pandas_int_column Absent), Absent) =
      (Break, \<lparr>last_timestamp = 2, last_id = None, sticky_timestamp = None,
          count = 2, total_records = 3, slept = 0\<rparr>,
       to_csv [example_event 1 ''a'', example_event 2 ''b'', example_event 2 ''c''] Absent)
   \<and> harvest_log (fixed_remote gap_source) 2 2 0
        (start_cursor (get_latest_cursor pandas_int_column Absent), Absent) =
      [example_event 1 ''a'', example_event 2 ''b'', example_event 2 ''c'']
   \<and> sorted (map sort_key_of (harvest_log (fixed_remote gap_source) 2 2 0
        (start_cursor (get_latest_cursor pandas_int_column Absent), Absent)))
   \<and> tie_source \<noteq> [] \<and> sorted (map timestamp tie_source)
   \<and> fromtimestamp_ok (timestamp (last tie_source))
   \<and> iterations (fixed_remote tie_source) 3 1 0
        (start_cursor (get_latest_cursor pandas_int_column (written Absent tie_source)),
         written Absent tie_source) =
      (Break, \<lparr>last_timestamp = 5, last_id = None, sticky_timestamp = None,
          count = 1, total_records = 2, slept = 0\<rparr>,
       to_csv (tie_source @ tie_source) Absent)
   \<and> harvest_log (fixed_remote tie_source) 3 1 0
        (start_cursor (get_latest_cursor pandas_int_column (written Absent tie_source)),
         written Absent tie_source) = tie_source
   \<and> sorted (map timestamp (tie_source @ harvest_log (fixed_remote tie_source) 3 1 0
        (start_cursor (get_latest_cursor pandas_int_column (written Absent tie_source)),
         written Absent tie_source)))
   \<and> sorted (map sort_key_of (harvest_log (fixed_remote tie_source) 3 1 0
        (start_cursor (get_latest_cursor pandas_int_column (written Absent tie_source)),
         written Absent tie_source)))"
proof -
  have run1: "iterations (fixed_remote gap_source) 2 2 0
        (start_cursor (get_latest_cursor pandas_int_column Absent), Absent) =
      (Break, \<lparr>last_timestamp = 2, last_id = None, sticky_timestamp = None,
          count = 2, total_records = 3, slept = 0\<rparr>,
       to_csv [example_event 1 ''a'', example_event 2 ''b'', example_event 2 ''c''] Absent)"
    by code_simp
  have log1: "harvest_log (fixed_remote gap_source) 2 2 0
        (start_cursor (get_latest_cursor pandas_int_column Absent), Absent) =
      [example_event 1 ''a'', example_event 2 ''b'', example_event 2 ''c'']"
    by code_simp
  have stored: "tie_source \<noteq> [] \<and> sorted (map timestamp tie_source)
      \<and> fromtimestamp_ok (timestamp (last tie_source))"
    by code_simp
  have run2: "iterations (fixed_remote tie_source) 3 1 0
        (start_cursor (get_latest_cursor pandas_int_column (written Absent tie_source)),
         written Absent tie_source) =
      (Break, \<lparr>last_timestamp = 5, last_id = None, sticky_timestamp = None,
          count = 1, total_records = 2, slept = 0\<rparr>,
       to_csv (tie_source @ tie_source) Absent)"
    by code_simp
  have log2: "harvest_log (fixed_remote tie_source) 3 1 0
        (start_cursor (get_latest_cursor pandas_int_column (written Absent tie_source)),
         written Absent tie_source) = tie_source"
    by code_simp
  have fresh: "sorted (map sort_key_of (harvest_log (fixed_remote gap_source) 2 2 0
        (start_cursor (get_latest_cursor pandas_int_column Absent), Absent)))"
    using run1
      store_order_invariant [where execute = "fixed_remote gap_source" and at_once = 2 and fuel = 2
        and pd = pandas_int_column, OF fixed_remote_matches]
    by blast
  have resumed: "sorted (map timestamp (tie_source @ harvest_log (fixed_remote tie_source) 3 1 0
        (start_cursor (get_latest_cursor pandas_int_column (written Absent tie_source)),
         written Absent tie_source)))
      \<and> sorted (map sort_key_of (harvest_log (fixed_remote tie_source) 3 1 0
        (start_cursor (get_latest_cursor pandas_int_column (written Absent tie_source)),
         written Absent tie_source)))"
    using stored run2
      store_order_invariant [where execute = "fixed_remote tie_source" and at_once = 3 and fuel = 1
        and pd = pandas_int_column and stored = tie_source, OF fixed_remote_matches]
    by blast
  show ?thesis
    using run1 log1 fresh stored run2 log2 resumed by blast
qed

text \<open>
  C7 as stated fails for a resumed run: two events (5, a) and (5, b), stored by the first
  run, are fetched and stored again by the second, and the rows then come from the ids
  a, b, a, b.
\<close>

theorem resumed_run_breaks_the_order:
  "scrape pandas_int_column (fixed_remote tie_source) 3 2 Absent =
      Some (Inr (\<lparr>last_timestamp = 5, last_id = None, sticky_timestamp = None,
          count = 1, total_records = 2, slept = 0\<rparr>, to_csv tie_source Absent))
   \<and> scrape pandas_int_column (fixed_remote tie_source) 3 2 (to_csv tie_source Absent) =
      Some (Inr (\<lparr>last_timestamp = 5, last_id = None, sticky_timestamp = None,
          count = 1, total_records = 2, slept = 0\<rparr>, to_csv (tie_source @ tie_source) Absent))
   \<and> \<not> sorted (map sort_key_of (tie_source @ tie_source))"
  by code_simp

subsection \<open>Ids in the store\<close>

lemma increasing_timestamps: "increasing es \<Longrightarrow> sorted (map timestamp es)"
  by (rule sorted_keys_timestamps) (rule increasing_sorted)

lemma drop_duplicates_ids: "id_field ` set (drop_duplicates es) = id_field ` set es"
proof (induction es)
  case Nil
  then show ?case by simp
next
  case (Cons e es)
  have "id_field ` set (filter (\<lambda>x. id_field x \<noteq> id_field e) (drop_duplicates es)) =
      id_field ` set (drop_duplicates es) - {id_field e}"
    by auto
  then show ?case using Cons by auto
qed

lemma drop_duplicates_distinct_ids: "distinct (map id_field (drop_duplicates es))"
proof (induction es)
  case Nil
  then show ?case by simp
next
  case (Cons e es)
  have "distinct (map id_field (filter (\<lambda>x. id_field x \<noteq> id_field e) (drop_duplicates es)))"
    using Cons by (simp add: distinct_map_filter)
  then show ?case by auto
qed

text \<open>
  C8, as amended. The rows a round appends are those of the batch it fetched, sorted and
  with the first row of every id kept: they have distinct ids, every id of the batch is
  among them, and the file they are appended to is not looked at (when line 144 raises
  on the last timestamp of the batch, the file is left as it was). After every round of a
  run that started from an absent store, against a source with distinct ids, the file
  holds rows of events with pairwise distinct ids.
\<close>

theorem deduplication_is_batch_local:
  "(evs \<noteq> [] \<longrightarrow>
      snd (snd (loop_body at_once (Events evs) (c, store))) =
        (if fromtimestamp_ok (timestamp (last (sort_values evs)))
         then to_csv (drop_duplicates (sort_values evs)) store else store)
      \<and> distinct (map id_field (drop_duplicates (sort_values evs)))
      \<and> id_field ` set (drop_duplicates (sort_values evs)) = id_field ` set evs)
   \<and> (distinct (map id_field source) \<and> 0 < at_once
      \<and> iterations (fixed_remote source) at_once fuel 0
          (start_cursor (get_latest_cursor pd Absent), Absent) = (fl, c', store') \<longrightarrow>
      store' = written Absent (persisted 0 source c')
      \<and> distinct (map id_field (persisted 0 source c')))"
proof -
  have batch: "snd (snd (loop_body at_once (Events evs) (c, store))) =
        (if fromtimestamp_ok (timestamp (last (sort_values evs)))
         then to_csv (drop_duplicates (sort_values evs)) store else store)
      \<and> distinct (map id_field (drop_duplicates (sort_values evs)))
      \<and> id_field ` set (drop_duplicates (sort_values evs)) = id_field ` set evs"
    if "evs \<noteq> []"
    using that
    by (simp add: loop_body_def Let_def drop_duplicates_distinct_ids drop_duplicates_ids sort_values_def)
  have fresh: "store' = written Absent (persisted 0 source c')
      \<and> distinct (map id_field (persisted 0 source c'))"
    if d: "distinct (map id_field source)" and n: "0 < at_once"
      and run: "iterations (fixed_remote source) at_once fuel 0
          (start_cursor (get_latest_cursor pd Absent), Absent) = (fl, c', store')"
  proof -
    have absent: "get_latest_cursor pd Absent = (0, None)" by (simp add: get_latest_cursor_def)
    have "harvested Absent 0 source (c', store')"
      using harvested_iterations [OF d n harvested_start [of Absent pd source] run]
      by (simp add: absent)
    then show ?thesis
      using increasing_distinct_ids [OF persisted_increasing [OF d] d persisted_subset]
      by (simp add: harvested_def)
  qed
  show ?thesis using batch fresh by blast
qed

theorem deduplication_is_batch_local_witness:
  "repeated_batch \<noteq> []
   \<and> fromtimestamp_ok (timestamp (last (sort_values repeated_batch)))
   \<and> snd (snd (loop_body 5 (Events repeated_batch) (example_cursor 0 None None, to_csv pair_source Absent))) =
       to_csv (drop_duplicates (sort_values repeated_batch)) (to_csv pair_source Absent)
   \<and> drop_duplicates (sort_values repeated_batch) = [example_event 1 ''a'', example_event 2 ''c'']
   \<and> distinct (map id_field pair_source) \<and> (0::nat) < 5
   \<and> iterations (fixed_remote pair_source) 5 1 0
        (start_cursor (get_latest_cursor pandas_int_column Absent), Absent) =
      (Break, \<lparr>last_timestamp = 8, last_id = None, sticky_timestamp = None,
          count = 1, total_records = 2, slept = 0\<rparr>, to_csv pair_source Absent)
   \<and> distinct (map id_field (persisted 0 pair_source \<lparr>last_timestamp = 8, last_id = None,
          sticky_timestamp = None, count = 1, total_records = 2, slept = 0\<rparr>))"
proof -
  have ne: "repeated_batch \<noteq> []" by (simp add: repeated_batch_def)
  have ok: "fromtimestamp_ok (timestamp (last (sort_values repeated_batch)))" by code_simp
  have dd: "drop_duplicates (sort_values repeated_batch) = [example_event 1 ''a'', example_event 2 ''c'']"
    by code_simp
  have d: "distinct (map id_field pair_source)" by code_simp
  have n: "(0::nat) < 5" by simp
  have run: "iterations (fixed_remote pair_source) 5 1 0
        (start_cursor (get_latest_cursor pandas_int_column Absent), Absent) =
      (Break, \<lparr>last_timestamp = 8, last_id = None, sticky_timestamp = None,
          count = 1, total_records = 2, slept = 0\<rparr>, to_csv pair_source Absent)"
    by code_simp
  note inst = deduplication_is_batch_local [where evs = repeated_batch and at_once = 5
        and c = "example_cursor 0 None None" and store = "to_csv pair_source Absent"
        and source = pair_source and fuel = 1 and pd = pandas_int_column]
  have batch: "snd (snd (loop_body 5 (Events repeated_batch) (example_cursor 0 None None, to_csv pair_source Absent))) =
       to_csv (drop_duplicates (sort_values repeated_batch)) (to_csv pair_source Absent)"
    using inst ne ok by simp
  have ids: "distinct (map id_field (persisted 0 pair_source \<lparr>last_timestamp = 8, last_id = None,
          sticky_timestamp = None, count = 1, total_records = 2, slept = 0\<rparr>))"
    using inst d n run by blast
  show ?thesis
    using ne ok dd d n run batch ids by blast
qed

text \<open>
  C8 as stated fails for a resumed run: with the events (7, x) and (8, y) stored, the
  second run resumes from timestamp 7 and stores the row of id y a second time.
\<close>

theorem resumed_run_repeats_an_id:
  "scrape pandas_int_column (fixed_remote pair_source) 5 2 Absent =
      Some (Inr (\<lparr>last_timestamp = 8, last_id = None, sticky_timestamp = None,
          count = 1, total_records = 2, slept = 0\<rparr>, to_csv pair_source Absent))
   \<and> scrape pandas_int_column (fixed_remote pair_source) 5 2 (to_csv pair_source Absent) =
      Some (Inr (\<lparr>last_timestamp = 8, last_id = None, sticky_timestamp = None,
          count = 1, total_records = 1, slept = 0\<rparr>,
        to_csv (pair_source @ [example_event 8 ''y'']) Absent))
   \<and> \<not> distinct (map id_field (pair_source @ [example_event 8 ''y'']))"
  by code_simp

subsection \<open>The end of a run\<close>

text \<open>
  When the body leaves the loop after a query that succeeded: on an empty answer in normal
  mode, and on every batch that is not empty, shorter than \<open>at_once\<close> and whose last
  timestamp line 144 can format, whatever the mode was before the query.
\<close>

lemma length_drop_duplicates: "length (drop_duplicates es) \<le> length es"
proof (induction es)
  case Nil
  then show ?case by simp
next
  case (Cons e es)
  then show ?case by (simp add: le_trans [OF length_filter_le])
qed

lemma loop_is_left_iff:
  "(fst (loop_body at_once (Events evs) (c, store)) = Break) =
     ((evs = [] \<and> sticky_timestamp c = None)
      \<or> (evs \<noteq> [] \<and> length evs < at_once \<and> fromtimestamp_ok (timestamp (last (sort_values evs)))))"
proof (cases "evs = []")
  case True
  then show ?thesis by (simp add: loop_body_def split: option.split)
next
  case False
  have l: "length (sort_values evs) = length evs" by (simp add: sort_values_def)
  have d: "length (drop_duplicates (sort_values evs)) \<le> length evs"
    using length_drop_duplicates [of "sort_values evs"] l by simp
  show ?thesis
  proof (cases "fromtimestamp_ok (timestamp (last (sort_values evs)))")
    case True
    then show ?thesis
      using False d by (auto simp: loop_body_def Let_def next_cursor_def l split: option.splits)
  next
    case out: False
    then show ?thesis using False by (simp add: loop_body_def Let_def)
  qed
qed

text \<open>
  C2. The claim says that the loop goes on after a short batch fetched in sticky mode.
  Line 188 tests \<open>sticky_timestamp\<close> after lines 162-166 have cleared it, so the loop is
  left: here in sticky mode at timestamp 2 after id b, with a page size of 2 and a batch
  of one event.
\<close>

theorem short_batch_in_sticky_mode_breaks:
  "loop_body 2 (Events [example_event 2 ''c''])
     (example_cursor 0 (Some ''b'') (Some 2), to_csv [example_event 1 ''a'', example_event 2 ''b''] Absent) =
   (Break, \<lparr>last_timestamp = 2, last_id = None, sticky_timestamp = None,
        count = 1, total_records = 1, slept = 0\<rparr>,
    to_csv [example_event 1 ''a'', example_event 2 ''b'', example_event 2 ''c''] Absent)"
  by code_simp

text \<open>
  What a completed run from an absent store has stored, against a source with distinct
  ids: the rows of the events after timestamp 0 up to the timestamp of the final cursor,
  each once, in ascending order. Events after that timestamp are not in the store.
\<close>

lemma loop_body_Break:
  assumes "loop_body n res (c, store) = (Break, c', store')"
  shows "sticky_timestamp c' = None"
  using assms
  by (auto simp: loop_body_def Let_def split: response.splits option.splits if_splits)

lemma iterations_Break:
  assumes "iterations execute n fuel k (c, store) = (Break, c', store')"
  shows "sticky_timestamp c' = None"
  using assms
proof (induction fuel arbitrary: k c store)
  case 0
  then show ?case by simp
next
  case (Suc fuel)
  obtain fl1 c1 store1 where body:
    "loop_body n (execute k (build_where_clause c) n) (c, store) = (fl1, c1, store1)"
    by (metis prod_cases3)
  show ?case
  proof (cases fl1)
    case Continue
    then have "iterations execute n fuel (Suc k) (c1, store1) = (Break, c', store')"
      using Suc.prems body by simp
    then show ?thesis by (rule Suc.IH)
  next
    case Break
    then have "c' = c1" using Suc.prems body by simp
    moreover have "sticky_timestamp c1 = None"
      using loop_body_Break [OF body [unfolded Break]] .
    ultimately show ?thesis by simp
  next
    case Raise
    then show ?thesis using Suc.prems body by simp
  qed
qed

lemma completed_run_store:
  assumes d: "distinct (map id_field source)" and n: "0 < at_once"
    and run: "scrape pd (fixed_remote source) at_once fuel Absent = Some (Inr (c, store))"
  shows "sticky_timestamp c = None
    \<and> store = written Absent
        (filter (\<lambda>e. 0 < timestamp e \<and> timestamp e \<le> last_timestamp c) (sort_key sort_key_of source))"
proof -
  have absent: "get_latest_cursor pd Absent = (0, None)" by (simp add: get_latest_cursor_def)
  have normal: "sticky_timestamp c = None"
    using iterations_Break [OF scrape_iterations [OF run]] .
  have "harvested Absent 0 source (c, store)"
    using harvested_iterations [OF d n harvested_start [of Absent pd source] scrape_iterations [OF run]]
    by (simp add: absent)
  then have "store = written Absent (persisted 0 source c)" by (simp add: harvested_def)
  then show ?thesis using normal by (simp add: persisted_def covered_def)
qed

text \<open>
  C1. The claim says that a completed run from an empty store holds every event of the
  remote source. With a page size of 2 and the events (1, a), (2, b), (2, c), (3, d), the
  run ends after the short batch that drains timestamp 2, and the event (3, d) is never
  fetched.
\<close>

theorem later_timestamp_never_fetched:
  "scrape pandas_int_column (fixed_remote gap_source) 2 10 Absent =
     Some (Inr (\<lparr>last_timestamp = 2, last_id = None, sticky_timestamp = None,
        count = 2, total_records = 3, slept = 0\<rparr>,
      to_csv [example_event 1 ''a'', example_event 2 ''b'', example_event 2 ''c''] Absent))
   \<and> example_event 3 ''d'' \<in> set gap_source"
  by code_simp

end
